theory Spec2Isabelle
  imports Complex_Main
begin

section \<open>Python string primitives used by \<open>dna_sequence.py\<close>\<close>

text \<open>
  Python strings are modelled as \<open>string\<close>, one \<open>char\<close> per code point below 256.
  \<open>str.upper\<close> is modelled on the ASCII letters; every other character is left as it
  is. No character outside ASCII upper-cases to one of the five bases, so validation
  does not depend on that simplification.
\<close>

definition upper_char :: "char \<Rightarrow> char" where
  "upper_char c =
     (let n = (of_char c :: nat) in if 97 \<le> n \<and> n \<le> 122 then char_of (n - 32) else c)"

definition upper :: "string \<Rightarrow> string" where
  "upper s = map upper_char s"

text \<open>
  \<open>str.strip()\<close> without argument removes leading and trailing whitespace; below 256
  the whitespace code points are 9-13, 28-32, 133 and 160.
\<close>

definition isspace :: "char \<Rightarrow> bool" where
  "isspace c = ((of_char c :: nat) \<in> set [9, 10, 11, 12, 13, 28, 29, 30, 31, 32, 133, 160])"

definition strip :: "string \<Rightarrow> string" where
  "strip s = rev (dropWhile isspace (rev (dropWhile isspace s)))"

text \<open>
  \<open>s.find(sub, start)\<close>: the lowest index \<open>i \<ge> start\<close> at which \<open>sub\<close> occurs in
  \<open>s\<close>, or \<open>-1\<close>. A negative \<open>start\<close> counts from the end and is clamped to 0. The
  empty string occurs at every index up to and including \<open>len(s)\<close>.
\<close>

function find_from :: "string \<Rightarrow> string \<Rightarrow> nat \<Rightarrow> int" where
  "find_from s sub k =
     (if length s < k + length sub then - 1
      else if take (length sub) (drop k s) = sub then int k
      else find_from s sub (Suc k))"
  by pat_completeness auto
termination
  by (relation "measure (\<lambda>(s, sub, k). Suc (length s) - k)") auto

declare find_from.simps [simp del]

definition str_find :: "string \<Rightarrow> string \<Rightarrow> int \<Rightarrow> int" where
  "str_find s sub start =
     (let n = int (length s);
          st = (if start < 0 then max 0 (start + n) else start)
      in find_from s sub (nat st))"

text \<open>
  \<open>s[i:j]\<close> with both bounds given and step 1: a negative bound counts from the end,
  and both are clamped to \<open>[0, len(s)]\<close>.
\<close>

definition adjust_index :: "int \<Rightarrow> int \<Rightarrow> int \<Rightarrow> int" where
  "adjust_index n step v =
     (if v < 0 then (if v + n < 0 then (if step < 0 then - 1 else 0) else v + n)
      else if n \<le> v then (if step < 0 then n - 1 else n)
      else v)"

definition slice2 :: "string \<Rightarrow> int \<Rightarrow> int \<Rightarrow> string" where
  "slice2 s i j =
     (let n = int (length s); a = adjust_index n 1 i; b = adjust_index n 1 j
      in take (nat (b - a)) (drop (nat a) s))"

text \<open>
  \<open>s[start:stop:step]\<close> in general: a step of 0 raises \<open>ValueError\<close>; omitted bounds
  default to the ends of the string in the direction of the step.
\<close>

datatype error = InvalidSequenceError | IndexError | ValueError

definition slice_length :: "int \<Rightarrow> int \<Rightarrow> int \<Rightarrow> int" where
  "slice_length a b step =
     (if step < 0 then (if b < a then (a - b - 1) div (- step) + 1 else 0)
      else (if a < b then (b - a - 1) div step + 1 else 0))"

definition str_getslice :: "string \<Rightarrow> int option \<Rightarrow> int option \<Rightarrow> int option \<Rightarrow> error + string" where
  "str_getslice s start stop step =
     (let st = (case step of None \<Rightarrow> 1 | Some v \<Rightarrow> v) in
      if st = 0 then Inl ValueError
      else
        let n = int (length s);
            a = (case start of None \<Rightarrow> (if st < 0 then n - 1 else 0)
                 | Some v \<Rightarrow> adjust_index n st v);
            b = (case stop of None \<Rightarrow> (if st < 0 then - 1 else n)
                 | Some v \<Rightarrow> adjust_index n st v)
        in Inr (map (\<lambda>k. s ! nat (a + int k * st)) [0..<nat (slice_length a b st)]))"

text \<open>\<open>s[i]\<close>: a negative index counts from the end; outside the string it raises.\<close>

definition str_getindex :: "string \<Rightarrow> int \<Rightarrow> error + char" where
  "str_getindex s i =
     (let n = int (length s); j = (if i < 0 then i + n else i)
      in if 0 \<le> j \<and> j < n then Inr (s ! nat j) else Inl IndexError)"

text \<open>
  \<open>s.count(sub)\<close>: the number of non-overlapping occurrences, found left to right; after
  a match the search resumes behind it (one position further for the empty string,
  whose occurrences are the \<open>len(s) + 1\<close> gaps between characters).
\<close>

function count_loop :: "string \<Rightarrow> string \<Rightarrow> nat \<Rightarrow> int \<Rightarrow> int" where
  "count_loop s sub k c =
     (if length s < k + length sub then c
      else if take (length sub) (drop k s) = sub
        then count_loop s sub (k + max 1 (length sub)) (c + 1)
      else count_loop s sub (Suc k) c)"
  by pat_completeness auto
termination
  by (relation "measure (\<lambda>(s, sub, k, c). Suc (length s) - k)") auto

declare count_loop.simps [simp del]

definition str_count :: "string \<Rightarrow> string \<Rightarrow> int" where
  "str_count s sub = count_loop s sub 0 0"

text \<open>The decimal rendering of a length inside an f-string.\<close>

fun str_of_nat :: "nat \<Rightarrow> string" where
  "str_of_nat n =
     (if n < 10 then [char_of (48 + n)]
      else str_of_nat (n div 10) @ [char_of (48 + n mod 10)])"

declare str_of_nat.simps [simp del]

section \<open>Exceptions and validation\<close>

definition VALID_BASES :: "char set" where
  "VALID_BASES = {CHR ''A'', CHR ''T'', CHR ''G'', CHR ''C'', CHR ''N''}"

definition is_valid :: "string \<Rightarrow> bool" where
  "is_valid sequence =
     (if sequence = [] then False else set (upper sequence) \<subseteq> VALID_BASES)"

section \<open>The class \<open>DNASequence\<close>\<close>

record DNASequence =
  sequence :: string
  seq_id :: string
  description :: string

text \<open>
  The constructor: the text is upper-cased, then stripped, then validated. A missing
  id is \<open>unnamed\<close>, a missing description is empty. When validation fails the
  exception leaves the constructor and the caller gets no object.
\<close>

definition DNASequence_init :: "string \<Rightarrow> string option \<Rightarrow> string option \<Rightarrow> error + DNASequence" where
  "DNASequence_init raw sid desc =
     (let s = strip (upper raw);
          i = (case sid of None \<Rightarrow> ''unnamed'' | Some x \<Rightarrow> x);
          d = (case desc of None \<Rightarrow> '''' | Some x \<Rightarrow> x)
      in if \<not> is_valid s then Inl InvalidSequenceError
         else Inr \<lparr>sequence = s, seq_id = i, description = d\<rparr>)"

text \<open>What the constructor establishes, and every method relies on.\<close>

definition valid_sequence :: "DNASequence \<Rightarrow> bool" where
  "valid_sequence s = (sequence s \<noteq> [] \<and> set (sequence s) \<subseteq> VALID_BASES)"

definition seq_len :: "DNASequence \<Rightarrow> int" where
  "seq_len s = int (length (sequence s))"

definition dna_eq :: "DNASequence \<Rightarrow> DNASequence \<Rightarrow> bool" where
  "dna_eq s other = (sequence s = sequence other)"

text \<open>
  \<open>__getitem__\<close>: the string is indexed first (which may raise), and a slice result
  is wrapped into a new object by \<open>_create_slice_sequence\<close>, whose constructor
  validates it again.
\<close>

datatype key = Index int | Slice "int option" "int option" "int option"

datatype item = Symbol char | SubSequence DNASequence

definition create_slice_sequence :: "DNASequence \<Rightarrow> string \<Rightarrow> error + DNASequence" where
  "create_slice_sequence s sub_sequence =
     (let new_id = seq_id s @ ''_slice_'' @ str_of_nat (length sub_sequence)
      in DNASequence_init sub_sequence (Some new_id) None)"

definition getitem :: "DNASequence \<Rightarrow> key \<Rightarrow> error + item" where
  "getitem s k =
     (case k of
        Index i \<Rightarrow>
          (case str_getindex (sequence s) i of
             Inl e \<Rightarrow> Inl e
           | Inr c \<Rightarrow> Inr (Symbol c))
      | Slice start stop step \<Rightarrow>
          (case str_getslice (sequence s) start stop step of
             Inl e \<Rightarrow> Inl e
           | Inr result \<Rightarrow>
               (case create_slice_sequence s result of
                  Inl e \<Rightarrow> Inl e
                | Inr d \<Rightarrow> Inr (SubSequence d))))"

subsection \<open>Basic operations\<close>

text \<open>
  \<open>get_base_composition\<close> builds a dict over the sorted bases; \<open>comp.get(k, 0)\<close> reads
  it with a default.
\<close>

definition get_base_composition :: "DNASequence \<Rightarrow> (char \<rightharpoonup> int)" where
  "get_base_composition s =
     map_of (map (\<lambda>base. (base, str_count (sequence s) [base]))
       [CHR ''A'', CHR ''C'', CHR ''G'', CHR ''N'', CHR ''T''])"

definition dict_get :: "('k \<rightharpoonup> 'v) \<Rightarrow> 'k \<Rightarrow> 'v \<Rightarrow> 'v" where
  "dict_get m k d = (case m k of None \<Rightarrow> d | Some v \<Rightarrow> v)"

text \<open>
  Python floats are idealised as real numbers: the model computes the value of the
  float expression without rounding.
\<close>

definition gc_content :: "DNASequence \<Rightarrow> real" where
  "gc_content s =
     (let total_length = seq_len s in
      if total_length = 0 then 0
      else
        let comp = get_base_composition s;
            gc_count = dict_get comp (CHR ''G'') 0 + dict_get comp (CHR ''C'') 0
        in (real_of_int gc_count / real_of_int total_length) * 100)"

subsection \<open>Complementarity\<close>

text \<open>\<open>str.translate\<close> maps the five bases and leaves any other character alone.\<close>

definition COMPLEMENT_MAP :: "char \<Rightarrow> char" where
  "COMPLEMENT_MAP c =
     (if c = CHR ''A'' then CHR ''T''
      else if c = CHR ''T'' then CHR ''A''
      else if c = CHR ''G'' then CHR ''C''
      else if c = CHR ''C'' then CHR ''G''
      else if c = CHR ''N'' then CHR ''N''
      else c)"

definition complement :: "DNASequence \<Rightarrow> error + DNASequence" where
  "complement s =
     (let complement_seq = map COMPLEMENT_MAP (sequence s)
      in DNASequence_init complement_seq (Some (seq_id s @ ''_complement'')) None)"

subsection \<open>Pattern search\<close>

text \<open>
  The \<open>while True\<close> loop of \<open>find_all_occurrences\<close>: it leaves when \<open>find\<close> answers
  \<open>-1\<close>, and otherwise searches on from one position behind the match.
\<close>

function find_all_loop :: "string \<Rightarrow> string \<Rightarrow> int \<Rightarrow> int list \<Rightarrow> int list" where
  "find_all_loop s target_pattern start_index positions =
     (let position = str_find s target_pattern start_index in
      if position = - 1 then positions
      else find_all_loop s target_pattern (position + 1) (positions @ [position]))"
  by pat_completeness auto

definition find_all_occurrences :: "DNASequence \<Rightarrow> string \<Rightarrow> int list" where
  "find_all_occurrences s pattern = find_all_loop (sequence s) (upper pattern) 0 []"

definition count_pattern_occurrences :: "DNASequence \<Rightarrow> string \<Rightarrow> int" where
  "count_pattern_occurrences s pattern = str_count (sequence s) (upper pattern)"

subsection \<open>ORF analysis\<close>

definition START_CODON :: string where
  "START_CODON = ''ATG''"

definition STOP_CODONS :: "string set" where
  "STOP_CODONS = {''TAA'', ''TAG'', ''TGA''}"

text \<open>
  The inner \<open>while\<close> loop of \<open>find_orfs\<close>: \<open>Some j\<close> when it breaks at a stop codon at
  \<open>j\<close>, \<open>None\<close> when the loop condition fails and the \<open>else\<close> branch runs.
\<close>

function inner_scan :: "string \<Rightarrow> int \<Rightarrow> int option" where
  "inner_scan s j =
     (if j < int (length s) - 2 then
        (if slice2 s j (j + 3) \<in> STOP_CODONS then Some j
         else inner_scan s (j + 3))
      else None)"
  by pat_completeness auto
termination
  by (relation "measure (\<lambda>(s, j). nat (int (length s) - j))") auto

declare inner_scan.simps [simp del]

text \<open>The outer \<open>while\<close> loop of one reading frame, from position \<open>i\<close>.\<close>

function outer_scan :: "string \<Rightarrow> int \<Rightarrow> int \<Rightarrow> (int \<times> int \<times> string) list \<Rightarrow> (int \<times> int \<times> string) list" where
  "outer_scan s min_length_bp i orfs =
     (if i < int (length s) - 2 then
        (if slice2 s i (i + 3) = START_CODON then
           (case inner_scan s (i + 3) of
              Some j \<Rightarrow>
                (let end_pos_exclusive = j + 3;
                     orf_length = end_pos_exclusive - i;
                     orfs' = (if min_length_bp \<le> orf_length
                              then orfs @ [(i, end_pos_exclusive, slice2 s i end_pos_exclusive)]
                              else orfs)
                 in outer_scan s min_length_bp end_pos_exclusive orfs')
            | None \<Rightarrow> outer_scan s min_length_bp (i + 3) orfs)
         else outer_scan s min_length_bp (i + 3) orfs)
      else orfs)"
  by pat_completeness auto

text \<open>
  \<open>find_orfs\<close> runs the outer loop for the frames 0, 1 and 2 on one result list. A
  call without argument is \<open>find_orfs s 100\<close>, the default of \<open>min_length_bp\<close>.
\<close>

definition find_orfs :: "DNASequence \<Rightarrow> int \<Rightarrow> (int \<times> int \<times> string) list" where
  "find_orfs s min_length_bp =
     fold (\<lambda>frame_shift orfs. outer_scan (sequence s) min_length_bp frame_shift orfs)
       [0, 1, 2] []"

subsection \<open>Advanced analyses\<close>

definition calculate_melting_temp :: "DNASequence \<Rightarrow> real" where
  "calculate_melting_temp s =
     (let comp = get_base_composition s;
          gc_count = dict_get comp (CHR ''G'') 0 + dict_get comp (CHR ''C'') 0;
          at_count = dict_get comp (CHR ''A'') 0 + dict_get comp (CHR ''T'') 0;
          total_length = seq_len s
      in if total_length = 0 then 0
         else if total_length < 14 then 4 * real_of_int gc_count + 2 * real_of_int at_count
         else
           let gc_fraction = gc_content s / 100
           in 64.9 + 41 * (gc_fraction - (16.4 / real_of_int total_length)))"

definition RESTRICTION_SITES :: "string \<rightharpoonup> string" where
  "RESTRICTION_SITES =
     map_of [(''EcoRI'', ''GAATTC''), (''BamHI'', ''GGATCC''), (''HindIII'', ''AAGCTT''),
             (''PstI'', ''CTGCAG''), (''SmaI'', ''CCCGGG''), (''XbaI'', ''TCTAGA'')]"

definition find_restriction_sites :: "DNASequence \<Rightarrow> string \<Rightarrow> int list" where
  "find_restriction_sites s enzyme =
     (case RESTRICTION_SITES enzyme of
        None \<Rightarrow> []
      | Some recognition_sequence \<Rightarrow> find_all_occurrences s recognition_sequence)"

section \<open>Termination of the search loops\<close>

lemma find_from_bounds:
  "find_from s sub k \<noteq> - 1 \<Longrightarrow>
     int k \<le> find_from s sub k \<and> find_from s sub k + int (length sub) \<le> int (length s)"
proof (induction s sub k rule: find_from.induct)
  case (1 s sub k)
  show ?case
  proof (cases "length s < k + length sub")
    case True
    with "1.prems" show ?thesis by (simp add: find_from.simps [of s sub k])
  next
    case False
    note in_range = this
    show ?thesis
    proof (cases "take (length sub) (drop k s) = sub")
      case True
      with in_range show ?thesis by (simp add: find_from.simps [of s sub k])
    next
      case False
      with in_range have step: "find_from s sub k = find_from s sub (Suc k)"
        by (simp add: find_from.simps [of s sub k])
      with "1.prems" have "find_from s sub (Suc k) \<noteq> - 1" by simp
      from "1.IH" [OF in_range False this] step show ?thesis by simp
    qed
  qed
qed

lemma str_find_bounds:
  assumes "str_find s sub start \<noteq> - 1"
  shows "start \<le> str_find s sub start" and "str_find s sub start \<le> int (length s)"
    and "0 \<le> str_find s sub start"
proof -
  let ?st = "if start < 0 then max 0 (start + int (length s)) else start"
  have eq: "str_find s sub start = find_from s sub (nat ?st)"
    by (simp add: str_find_def Let_def)
  with assms have "find_from s sub (nat ?st) \<noteq> - 1" by simp
  from find_from_bounds [OF this] eq
  have b: "int (nat ?st) \<le> str_find s sub start"
    "str_find s sub start + int (length sub) \<le> int (length s)"
    by simp_all
  from b(1) show "start \<le> str_find s sub start" by (simp split: if_splits)
  from b(2) show "str_find s sub start \<le> int (length s)" by simp
  show "0 \<le> str_find s sub start"
    by (rule order_trans [OF of_nat_0_le_iff b(1)])
qed

termination find_all_loop
proof (relation "measure (\<lambda>(s, p, start, acc). nat (int (length s) + 1 - start))")
  show "wf (measure (\<lambda>(s, p, start, acc). nat (int (length s) + 1 - start)))" by simp
next
  fix s target_pattern :: string and start_index :: int and positions :: "int list" and x
  assume x: "x = str_find s target_pattern start_index" and "x \<noteq> - 1"
  then have ne: "str_find s target_pattern start_index \<noteq> - 1" by simp
  from str_find_bounds [OF ne] x
  have "start_index \<le> x" and "x \<le> int (length s)" by simp_all
  then show "((s, target_pattern, x + 1, positions @ [x]), (s, target_pattern, start_index, positions))
        \<in> measure (\<lambda>(s, p, start, acc). nat (int (length s) + 1 - start))"
    by simp
qed

lemma slice2_nonneg:
  assumes "0 \<le> i" and "i \<le> j"
  shows "slice2 s i j = take (nat (j - i)) (drop (nat i) s)"
proof -
  let ?n = "int (length s)"
  have a: "adjust_index ?n 1 i = min i ?n"
    using assms by (simp add: adjust_index_def)
  have b: "adjust_index ?n 1 j = min j ?n"
    using assms by (simp add: adjust_index_def)
  show ?thesis
  proof (cases "?n \<le> i")
    case True
    then show ?thesis by (simp add: slice2_def Let_def a b)
  next
    case False
    then have i_lt: "i < ?n" by simp
    show ?thesis
    proof (cases "?n \<le> j")
      case True
      with i_lt assms have "nat (?n - i) = length s - nat i" by linarith
      with True i_lt show ?thesis by (simp add: slice2_def Let_def a b)
    next
      case False
      with i_lt show ?thesis by (simp add: slice2_def Let_def a b)
    qed
  qed
qed

lemma inner_scan_bounds:
  "inner_scan s j0 = Some j \<Longrightarrow> j0 \<le> j \<and> j < int (length s) - 2"
proof (induction s j0 rule: inner_scan.induct)
  case (1 s j0)
  show ?case
  proof (cases "j0 < int (length s) - 2")
    case False
    with "1.prems" show ?thesis by (simp add: inner_scan.simps [of s j0])
  next
    case True
    note in_range = this
    show ?thesis
    proof (cases "slice2 s j0 (j0 + 3) \<in> STOP_CODONS")
      case True
      with in_range "1.prems" show ?thesis by (simp add: inner_scan.simps [of s j0])
    next
      case False
      with in_range "1.prems" have "inner_scan s (j0 + 3) = Some j"
        by (simp add: inner_scan.simps [of s j0])
      from "1.IH" [OF in_range False this] show ?thesis by simp
    qed
  qed
qed

termination outer_scan
proof (relation "measure (\<lambda>(s, m, i, acc). nat (int (length s) - i))", goal_cases)
  case 1
  show ?case by simp
next
  case (2 s min_length_bp i orfs)
  then show ?case by simp
next
  case (3 s min_length_bp i orfs x2 xa xb xc)
  from inner_scan_bounds [OF 3(3)] 3(1) 3(4) show ?case by simp
next
  case (4 s min_length_bp i orfs)
  then show ?case by simp
qed

declare find_all_loop.simps [simp del]
declare outer_scan.simps [simp del]

section \<open>The constructor and its invariant\<close>

lemma upper_char_idem: "upper_char (upper_char c) = upper_char c"
  unfolding upper_char_def Let_def by (auto simp: of_char_of)

lemma upper_idem: "upper (upper s) = upper s"
  by (simp add: upper_def upper_char_idem)

lemma upper_char_base: "c \<in> VALID_BASES \<Longrightarrow> upper_char c = c"
  unfolding VALID_BASES_def by (auto simp: upper_char_def)

lemma upper_bases: "set s \<subseteq> VALID_BASES \<Longrightarrow> upper s = s"
  unfolding upper_def by (induction s) (simp_all add: upper_char_base)

lemma length_upper: "length (upper s) = length s"
  by (simp add: upper_def)

lemma set_strip: "set (strip s) \<subseteq> set s"
proof
  fix c assume "c \<in> set (strip s)"
  then have "c \<in> set (dropWhile isspace (rev (dropWhile isspace s)))"
    by (simp add: strip_def)
  then have "c \<in> set (rev (dropWhile isspace s))" by (rule set_dropWhileD)
  then have "c \<in> set (dropWhile isspace s)" by simp
  then show "c \<in> set s" by (rule set_dropWhileD)
qed

lemma upper_strip_upper: "upper (strip (upper raw)) = strip (upper raw)"
proof -
  have "\<forall>c \<in> set (strip (upper raw)). upper_char c = c"
  proof
    fix c assume "c \<in> set (strip (upper raw))"
    with set_strip have "c \<in> set (upper raw)" by blast
    then obtain d where "c = upper_char d" by (auto simp: upper_def)
    then show "upper_char c = c" by (simp add: upper_char_idem)
  qed
  then show ?thesis by (simp add: upper_def map_idI)
qed

lemma base_not_space: "c \<in> VALID_BASES \<Longrightarrow> \<not> isspace c"
  unfolding VALID_BASES_def by (auto simp: isspace_def)

lemma dropWhile_id: "\<forall>c \<in> set s. \<not> P c \<Longrightarrow> dropWhile P s = s"
  by (cases s) simp_all

lemma strip_bases: "set s \<subseteq> VALID_BASES \<Longrightarrow> strip s = s"
proof -
  assume a: "set s \<subseteq> VALID_BASES"
  then have ns: "\<forall>c \<in> set s. \<not> isspace c" by (auto dest: base_not_space)
  then have "dropWhile isspace s = s" by (rule dropWhile_id)
  moreover from ns have "dropWhile isspace (rev s) = rev s"
    by (intro dropWhile_id) simp
  ultimately show ?thesis by (simp add: strip_def)
qed

lemma init_result:
  "DNASequence_init raw sid desc =
     (if strip (upper raw) = [] \<or> \<not> set (strip (upper raw)) \<subseteq> VALID_BASES
      then Inl InvalidSequenceError
      else Inr \<lparr>sequence = strip (upper raw),
                seq_id = (case sid of None \<Rightarrow> ''unnamed'' | Some x \<Rightarrow> x),
                description = (case desc of None \<Rightarrow> '''' | Some x \<Rightarrow> x)\<rparr>)"
  by (simp add: DNASequence_init_def is_valid_def Let_def upper_strip_upper)

lemma init_establishes:
  assumes "DNASequence_init raw sid desc = Inr s"
  shows "valid_sequence s" and "sequence s = strip (upper raw)"
  using assms unfolding init_result valid_sequence_def
  by (auto split: if_splits)

lemma init_of_bases:
  assumes "s \<noteq> []" and "set s \<subseteq> VALID_BASES"
  shows "DNASequence_init s (Some i) None = Inr \<lparr>sequence = s, seq_id = i, description = ''''\<rparr>"
  using assms by (simp add: init_result upper_bases strip_bases)

lemma valid_constructible:
  assumes "valid_sequence s"
  shows "DNASequence_init (sequence s) (Some (seq_id s)) (Some (description s)) = Inr s"
  using assms by (simp add: init_result upper_bases strip_bases valid_sequence_def)

text \<open>
  C4. Construction raises \<open>InvalidSequenceError\<close> exactly when the input, upper-cased
  and stripped, is empty or holds a character outside A, T, G, C, N. In that case the
  caller gets the error and no object; otherwise the object holds the canonical text.
\<close>

theorem init_invalid_iff:
  "DNASequence_init raw sid desc =
     (let canonical = strip (upper raw) in
      if canonical = [] \<or> (\<exists>c \<in> set canonical. c \<notin> VALID_BASES)
      then Inl InvalidSequenceError
      else Inr \<lparr>sequence = canonical,
                seq_id = (case sid of None \<Rightarrow> ''unnamed'' | Some x \<Rightarrow> x),
                description = (case desc of None \<Rightarrow> '''' | Some x \<Rightarrow> x)\<rparr>)"
proof -
  have "(\<not> set (strip (upper raw)) \<subseteq> VALID_BASES)
        = (\<exists>c \<in> set (strip (upper raw)). c \<notin> VALID_BASES)"
    by blast
  then show ?thesis by (simp add: init_result Let_def)
qed

theorem init_invalid_iff_witness:
  "DNASequence_init ''ATGCUX'' None None = Inl InvalidSequenceError
   \<and> DNASequence_init ''  '' None None = Inl InvalidSequenceError
   \<and> DNASequence_init '' atgcn '' (Some ''x'') None
       = Inr \<lparr>sequence = ''ATGCN'', seq_id = ''x'', description = ''''\<rparr>"
proof -
  have c1: "strip (upper ''ATGCUX'') = ''ATGCUX''" by code_simp
  have c2: "strip (upper ''  '') = ''''" by code_simp
  have c3: "strip (upper '' atgcn '') = ''ATGCN''" by code_simp
  show ?thesis
    using init_invalid_iff [of "''ATGCUX''" None None]
      init_invalid_iff [of "''  ''" None None]
      init_invalid_iff [of "'' atgcn ''" "Some ''x''" None]
    by (simp add: c1 c2 c3 VALID_BASES_def)
qed

section \<open>Pattern search\<close>

lemma find_from_long: "length s < length sub \<Longrightarrow> find_from s sub k = - 1"
  by (simp add: find_from.simps [of s sub k])

lemma find_from_empty:
  "find_from s [] k = (if k \<le> length s then int k else - 1)"
  by (simp add: find_from.simps [of s "[]" k])

lemma str_find_long: "length s < length sub \<Longrightarrow> str_find s sub start = - 1"
  by (simp add: str_find_def Let_def find_from_long)

lemma str_find_empty:
  "0 \<le> start \<Longrightarrow> str_find s [] start = (if start \<le> int (length s) then start else - 1)"
  by (auto simp: str_find_def Let_def find_from_empty nat_le_iff)

lemma find_all_loop_long:
  "length s < length sub \<Longrightarrow> find_all_loop s sub start acc = acc"
  by (simp add: find_all_loop.simps [of s sub start acc] str_find_long)

lemma find_all_loop_empty:
  "0 \<le> start \<Longrightarrow> start \<le> int (length s) + 1 \<Longrightarrow>
     find_all_loop s [] start acc = acc @ map int [nat start..<Suc (length s)]"
proof (induction "Suc (length s) - nat start" arbitrary: start acc)
  case 0
  then have past: "start = int (length s) + 1" by linarith
  then have "str_find s [] start = - 1" by (simp add: str_find_empty)
  then have "find_all_loop s [] start acc = acc"
    by (subst find_all_loop.simps) simp
  moreover from past have "[nat start..<Suc (length s)] = []" by simp
  ultimately show ?case by simp
next
  case (Suc n)
  then have inside: "start \<le> int (length s)" by linarith
  with Suc.prems have found: "str_find s [] start = start" by (simp add: str_find_empty)
  from Suc.prems have ne: "start \<noteq> - 1" by simp
  have step: "find_all_loop s [] start acc = find_all_loop s [] (start + 1) (acc @ [start])"
    using found ne by (simp add: find_all_loop.simps [of s "[]" start acc])
  from Suc.hyps(2) Suc.prems have m: "n = Suc (length s) - nat (start + 1)" by linarith
  from inside Suc.prems have r: "0 \<le> start + 1" "start + 1 \<le> int (length s) + 1" by simp_all
  from Suc.prems inside have lt: "nat start < Suc (length s)" by linarith
  from Suc.prems have nx: "nat (start + 1) = Suc (nat start)" by linarith
  have "find_all_loop s [] (start + 1) (acc @ [start])
        = (acc @ [start]) @ map int [nat (start + 1)..<Suc (length s)]"
    by (rule Suc.hyps(1) [OF m r])
  also have "\<dots> = acc @ map int (nat start # [Suc (nat start)..<Suc (length s)])"
    using Suc.prems(1) by (simp add: nx)
  also have "nat start # [Suc (nat start)..<Suc (length s)] = [nat start..<Suc (length s)]"
    using lt by (simp add: upt_conv_Cons)
  finally show ?case using step by simp
qed

lemma count_loop_empty:
  "k \<le> Suc (length s) \<Longrightarrow> count_loop s [] k c = c + int (Suc (length s) - k)"
proof (induction "Suc (length s) - k" arbitrary: k c)
  case 0
  then have "k = Suc (length s)" by simp
  then show ?case by (subst count_loop.simps) simp
next
  case (Suc n)
  then have inside: "k \<le> length s" by linarith
  then have step: "count_loop s [] k c = count_loop s [] (Suc k) (c + 1)"
    by (simp add: count_loop.simps [of s "[]" k c])
  from Suc.hyps(2) have m: "n = Suc (length s) - Suc k" by linarith
  from inside have r: "Suc k \<le> Suc (length s)" by simp
  from Suc.hyps(1) [OF m r, of "c + 1"] step inside show ?case by simp
qed

lemma count_loop_single:
  "count_loop s [x] k c = c + int (count_list (drop k s) x)"
proof (induction "length s - k" arbitrary: k c)
  case 0
  then have "length s \<le> k" by simp
  then show ?case by (simp add: count_loop.simps [of s "[x]" k c])
next
  case (Suc n)
  then have inside: "k < length s" by linarith
  from Suc.hyps(2) have m: "n = length s - Suc k" by linarith
  from inside have dr: "drop k s = s ! k # drop (Suc k) s"
    by (simp add: Cons_nth_drop_Suc)
  show ?case
  proof (cases "s ! k = x")
    case True
    with inside dr have "count_loop s [x] k c = count_loop s [x] (Suc k) (c + 1)"
      by (simp add: count_loop.simps [of s "[x]" k c])
    with Suc.hyps(1) [OF m, of "c + 1"] dr True show ?thesis by simp
  next
    case False
    with inside dr have "count_loop s [x] k c = count_loop s [x] (Suc k) c"
      by (simp add: count_loop.simps [of s "[x]" k c])
    with Suc.hyps(1) [OF m, of c] dr False show ?thesis by simp
  qed
qed

lemma str_count_single: "str_count s [x] = int (count_list s x)"
  by (simp add: str_count_def count_loop_single)

lemma str_count_empty: "str_count s [] = int (length s) + 1"
  by (simp add: str_count_def count_loop_empty)

lemma upper_Nil: "upper [] = []"
  by (simp add: upper_def)

text \<open>
  C1, as the code has it. For a pattern longer than the sequence the result is empty.
  For the empty pattern \<open>find\<close> answers every start index up to the length, so the
  loop collects all the offsets \<open>0, \<dots>, len(s)\<close>. The loop terminates for every
  pattern (see the termination proof of \<open>find_all_loop\<close>), so the method always
  returns a list.
\<close>

theorem find_all_occurrences_edge_patterns:
  assumes "valid_sequence s"
  shows "(length (sequence s) < length pattern \<longrightarrow> find_all_occurrences s pattern = [])
    \<and> find_all_occurrences s [] = map int [0..<Suc (length (sequence s))]
    \<and> length (find_all_occurrences s []) = length (sequence s) + 1"
proof -
  have long: "length (sequence s) < length pattern \<longrightarrow> find_all_occurrences s pattern = []"
    by (simp add: find_all_occurrences_def find_all_loop_long length_upper)
  have "find_all_loop (sequence s) [] 0 [] = [] @ map int [nat 0..<Suc (length (sequence s))]"
    by (rule find_all_loop_empty) simp_all
  then have empty: "find_all_occurrences s [] = map int [0..<Suc (length (sequence s))]"
    by (simp add: find_all_occurrences_def upper_Nil)
  from long empty show ?thesis by simp
qed

theorem find_all_occurrences_edge_patterns_witness:
  "valid_sequence \<lparr>sequence = ''ATG'', seq_id = ''unnamed'', description = ''''\<rparr>
   \<and> find_all_occurrences \<lparr>sequence = ''ATG'', seq_id = ''unnamed'', description = ''''\<rparr> ''ATGC'' = []
   \<and> find_all_occurrences \<lparr>sequence = ''ATG'', seq_id = ''unnamed'', description = ''''\<rparr> [] = [0, 1, 2, 3]"
proof -
  let ?s = "\<lparr>sequence = ''ATG'', seq_id = ''unnamed'', description = ''''\<rparr>"
  have v: "valid_sequence ?s" by (simp add: valid_sequence_def VALID_BASES_def)
  have u: "map int [0..<Suc (length ''ATG'')] = [0, 1, 2, 3]" by code_simp
  from find_all_occurrences_edge_patterns [OF v, of "''ATGC''"] v u
  show ?thesis by simp
qed

text \<open>
  The claim as the spec words it fails: on the sequence \<open>ATG\<close> the empty pattern
  yields four offsets, not the empty list.
\<close>

theorem find_all_occurrences_empty_pattern_counterexample:
  "valid_sequence \<lparr>sequence = ''ATG'', seq_id = ''unnamed'', description = ''''\<rparr>
   \<and> find_all_occurrences \<lparr>sequence = ''ATG'', seq_id = ''unnamed'', description = ''''\<rparr> ''''
       = [0, 1, 2, 3]
   \<and> find_all_occurrences \<lparr>sequence = ''ATG'', seq_id = ''unnamed'', description = ''''\<rparr> ''''
       \<noteq> []"
proof -
  let ?s = "\<lparr>sequence = ''ATG'', seq_id = ''unnamed'', description = ''''\<rparr>"
  have v: "valid_sequence ?s" by (simp add: valid_sequence_def VALID_BASES_def)
  have r: "find_all_loop ''ATG'' (upper '''') 0 [] = [0, 1, 2, 3]" by code_simp
  from v r show ?thesis by (simp add: find_all_occurrences_def)
qed

text \<open>
  C2, as the code has it. In \<open>ATGAATTCGGCCATGAATTC\<close> the recognition sequence
  \<open>GAATTC\<close> of EcoRI starts at the 0-based offsets 2 and 14, and these are what
  \<open>find_restriction_sites\<close> returns.
\<close>

theorem ecori_sites_example:
  assumes "DNASequence_init ''ATGAATTCGGCCATGAATTC'' sid desc = Inr s"
  shows "find_restriction_sites s ''EcoRI'' = [2, 14]"
proof -
  have c: "strip (upper ''ATGAATTCGGCCATGAATTC'') = ''ATGAATTCGGCCATGAATTC''" by code_simp
  from init_establishes(2) [OF assms] c
  have seq: "sequence s = ''ATGAATTCGGCCATGAATTC''" by simp
  have e: "RESTRICTION_SITES ''EcoRI'' = Some ''GAATTC''"
    by (simp add: RESTRICTION_SITES_def)
  have r: "find_all_loop ''ATGAATTCGGCCATGAATTC'' (upper ''GAATTC'') 0 [] = [2, 14]"
    by code_simp
  show ?thesis
    by (simp add: find_restriction_sites_def e find_all_occurrences_def seq r)
qed

theorem ecori_sites_example_witness:
  "DNASequence_init ''ATGAATTCGGCCATGAATTC'' None None
     = Inr \<lparr>sequence = ''ATGAATTCGGCCATGAATTC'', seq_id = ''unnamed'', description = ''''\<rparr>
   \<and> find_restriction_sites
        \<lparr>sequence = ''ATGAATTCGGCCATGAATTC'', seq_id = ''unnamed'', description = ''''\<rparr>
        ''EcoRI'' = [2, 14]"
proof -
  have c: "strip (upper ''ATGAATTCGGCCATGAATTC'') = ''ATGAATTCGGCCATGAATTC''" by code_simp
  have h: "DNASequence_init ''ATGAATTCGGCCATGAATTC'' None None
     = Inr \<lparr>sequence = ''ATGAATTCGGCCATGAATTC'', seq_id = ''unnamed'', description = ''''\<rparr>"
    by (simp add: init_result c VALID_BASES_def)
  from ecori_sites_example [OF h] h show ?thesis by simp
qed

text \<open>The list \<open>[3, 14]\<close> of the spec's example is not what the method returns.\<close>

theorem ecori_sites_counterexample:
  "DNASequence_init ''ATGAATTCGGCCATGAATTC'' None None
     = Inr \<lparr>sequence = ''ATGAATTCGGCCATGAATTC'', seq_id = ''unnamed'', description = ''''\<rparr>
   \<and> find_restriction_sites
        \<lparr>sequence = ''ATGAATTCGGCCATGAATTC'', seq_id = ''unnamed'', description = ''''\<rparr>
        ''EcoRI'' \<noteq> [3, 14]"
proof -
  have c: "strip (upper ''ATGAATTCGGCCATGAATTC'') = ''ATGAATTCGGCCATGAATTC''" by code_simp
  have h: "DNASequence_init ''ATGAATTCGGCCATGAATTC'' None None
     = Inr \<lparr>sequence = ''ATGAATTCGGCCATGAATTC'', seq_id = ''unnamed'', description = ''''\<rparr>"
    by (simp add: init_result c VALID_BASES_def)
  have e: "RESTRICTION_SITES ''EcoRI'' = Some ''GAATTC''"
    by (simp add: RESTRICTION_SITES_def)
  have r: "find_all_loop ''ATGAATTCGGCCATGAATTC'' (upper ''GAATTC'') 0 [] = [2, 14]"
    by code_simp
  have "find_restriction_sites
        \<lparr>sequence = ''ATGAATTCGGCCATGAATTC'', seq_id = ''unnamed'', description = ''''\<rparr>
        ''EcoRI'' = [2, 14]"
    by (simp add: find_restriction_sites_def e find_all_occurrences_def r)
  with h show ?thesis by simp
qed

text \<open>
  C5. On the sequence \<open>AAAA\<close>, \<open>find_all_occurrences\<close> reports the overlapping
  matches of \<open>AAA\<close> at 0 and 1, while \<open>count_pattern_occurrences\<close> counts the two
  non-overlapping matches of \<open>AA\<close>.
\<close>

theorem overlap_policy_example:
  assumes "DNASequence_init ''AAAA'' sid desc = Inr s"
  shows "find_all_occurrences s ''AAA'' = [0, 1] \<and> count_pattern_occurrences s ''AA'' = 2"
proof -
  have c: "strip (upper ''AAAA'') = ''AAAA''" by code_simp
  from init_establishes(2) [OF assms] c have seq: "sequence s = ''AAAA''" by simp
  have a: "find_all_loop ''AAAA'' (upper ''AAA'') 0 [] = [0, 1]" by code_simp
  have b: "str_count ''AAAA'' (upper ''AA'') = 2" by code_simp
  show ?thesis
    by (simp add: find_all_occurrences_def count_pattern_occurrences_def seq a b)
qed

theorem overlap_policy_example_witness:
  "DNASequence_init ''AAAA'' None None
     = Inr \<lparr>sequence = ''AAAA'', seq_id = ''unnamed'', description = ''''\<rparr>
   \<and> find_all_occurrences \<lparr>sequence = ''AAAA'', seq_id = ''unnamed'', description = ''''\<rparr> ''AAA''
       = [0, 1]
   \<and> count_pattern_occurrences \<lparr>sequence = ''AAAA'', seq_id = ''unnamed'', description = ''''\<rparr> ''AA''
       = 2"
proof -
  have c: "strip (upper ''AAAA'') = ''AAAA''" by code_simp
  have h: "DNASequence_init ''AAAA'' None None
     = Inr \<lparr>sequence = ''AAAA'', seq_id = ''unnamed'', description = ''''\<rparr>"
    by (simp add: init_result c VALID_BASES_def)
  from overlap_policy_example [OF h] h show ?thesis by simp
qed

text \<open>
  C10. With the empty string as pattern, \<open>count_pattern_occurrences\<close> returns the
  length of the sequence plus one.
\<close>

theorem count_empty_pattern:
  assumes "valid_sequence s"
  shows "count_pattern_occurrences s '''' = seq_len s + 1"
  by (simp add: count_pattern_occurrences_def upper_Nil str_count_empty seq_len_def)

theorem count_empty_pattern_witness:
  "valid_sequence \<lparr>sequence = ''ATGC'', seq_id = ''unnamed'', description = ''''\<rparr>
   \<and> count_pattern_occurrences \<lparr>sequence = ''ATGC'', seq_id = ''unnamed'', description = ''''\<rparr> '''' = 5"
proof -
  let ?s = "\<lparr>sequence = ''ATGC'', seq_id = ''unnamed'', description = ''''\<rparr>"
  have v: "valid_sequence ?s" by (simp add: valid_sequence_def VALID_BASES_def)
  from count_empty_pattern [OF v] v show ?thesis by (simp add: seq_len_def)
qed

section \<open>Complement\<close>

lemma COMPLEMENT_MAP_involution: "COMPLEMENT_MAP (COMPLEMENT_MAP c) = c"
  by (simp add: COMPLEMENT_MAP_def)

lemma COMPLEMENT_MAP_base: "c \<in> VALID_BASES \<Longrightarrow> COMPLEMENT_MAP c \<in> VALID_BASES"
  by (auto simp: COMPLEMENT_MAP_def VALID_BASES_def)

lemma map_COMPLEMENT_MAP_bases:
  "set xs \<subseteq> VALID_BASES \<Longrightarrow> set (map COMPLEMENT_MAP xs) \<subseteq> VALID_BASES"
  by (induction xs) (simp_all add: COMPLEMENT_MAP_base)

lemma complement_result:
  assumes "valid_sequence s"
  shows "complement s = Inr \<lparr>sequence = map COMPLEMENT_MAP (sequence s),
                            seq_id = seq_id s @ ''_complement'', description = ''''\<rparr>"
proof -
  from assms have ne: "map COMPLEMENT_MAP (sequence s) \<noteq> []"
    by (simp add: valid_sequence_def)
  from assms have bases: "set (map COMPLEMENT_MAP (sequence s)) \<subseteq> VALID_BASES"
    by (intro map_COMPLEMENT_MAP_bases) (simp add: valid_sequence_def)
  show ?thesis
    unfolding complement_def Let_def by (rule init_of_bases [OF ne bases])
qed

lemma complement_valid:
  assumes "valid_sequence s" and "complement s = Inr c"
  shows "valid_sequence c"
proof -
  from complement_result [OF assms(1)] assms(2)
  have c: "sequence c = map COMPLEMENT_MAP (sequence s)" by auto
  from assms(1) have "set (map COMPLEMENT_MAP (sequence s)) \<subseteq> VALID_BASES"
    by (intro map_COMPLEMENT_MAP_bases) (simp add: valid_sequence_def)
  with assms(1) c show ?thesis by (simp add: valid_sequence_def)
qed

text \<open>
  C7. For a valid sequence both complements are constructed without error, and the
  second one is equal to the sequence under \<open>__eq__\<close>, which compares the text only.
\<close>

theorem complement_involution:
  assumes "valid_sequence s"
  shows "\<exists>c cc. complement s = Inr c \<and> complement c = Inr cc \<and> dna_eq cc s"
proof -
  let ?c = "\<lparr>sequence = map COMPLEMENT_MAP (sequence s),
             seq_id = seq_id s @ ''_complement'', description = ''''\<rparr>"
  let ?cc = "\<lparr>sequence = map COMPLEMENT_MAP (sequence ?c),
              seq_id = seq_id ?c @ ''_complement'', description = ''''\<rparr>"
  have first: "complement s = Inr ?c" by (rule complement_result [OF assms])
  with assms have "valid_sequence ?c" by (rule complement_valid)
  then have second: "complement ?c = Inr ?cc" by (rule complement_result)
  have "sequence ?cc = sequence s"
    by (simp add: COMPLEMENT_MAP_involution comp_def)
  then have "dna_eq ?cc s" by (simp only: dna_eq_def)
  with first second show ?thesis by blast
qed

theorem complement_involution_witness:
  "valid_sequence \<lparr>sequence = ''ATGCATGC'', seq_id = ''test1'', description = ''''\<rparr>
   \<and> complement \<lparr>sequence = ''ATGCATGC'', seq_id = ''test1'', description = ''''\<rparr>
       = Inr \<lparr>sequence = ''TACGTACG'', seq_id = ''test1_complement'', description = ''''\<rparr>
   \<and> (\<exists>c cc. complement \<lparr>sequence = ''ATGCATGC'', seq_id = ''test1'', description = ''''\<rparr> = Inr c
         \<and> complement c = Inr cc
         \<and> dna_eq cc \<lparr>sequence = ''ATGCATGC'', seq_id = ''test1'', description = ''''\<rparr>)"
proof -
  let ?s = "\<lparr>sequence = ''ATGCATGC'', seq_id = ''test1'', description = ''''\<rparr>"
  have v: "valid_sequence ?s" by (simp add: valid_sequence_def VALID_BASES_def)
  have c: "complement ?s
      = Inr \<lparr>sequence = ''TACGTACG'', seq_id = ''test1_complement'', description = ''''\<rparr>"
    by (simp add: complement_result [OF v] COMPLEMENT_MAP_def)
  from complement_involution [OF v] v c show ?thesis by simp
qed

section \<open>Composition and melting temperature\<close>

lemma composition_get:
  assumes "b \<in> VALID_BASES"
  shows "dict_get (get_base_composition s) b 0 = int (count_list (sequence s) b)"
  using assms
  by (auto simp: VALID_BASES_def get_base_composition_def dict_get_def str_count_single)

lemma gc_content_eq:
  assumes "valid_sequence s"
  shows "gc_content s =
     real (count_list (sequence s) CHR ''G'' + count_list (sequence s) CHR ''C'')
       / real (length (sequence s)) * 100"
proof -
  from assms have "seq_len s \<noteq> 0" by (simp add: valid_sequence_def seq_len_def)
  then show ?thesis
    by (simp add: gc_content_def Let_def composition_get VALID_BASES_def seq_len_def)
qed

text \<open>
  C6. A valid sequence is not empty, so the zero-length guard is never taken: below 14
  symbols the estimate is the Wallace rule on the counts of the symbols, from 14
  symbols on it is the long-sequence formula on \<open>gc_content\<close>.
\<close>

theorem melting_temp_regimes:
  assumes "valid_sequence s"
  shows "(seq_len s < 14 \<longrightarrow>
            calculate_melting_temp s =
              4 * real (count_list (sequence s) CHR ''G'' + count_list (sequence s) CHR ''C'')
              + 2 * real (count_list (sequence s) CHR ''A'' + count_list (sequence s) CHR ''T''))
       \<and> (14 \<le> seq_len s \<longrightarrow>
            calculate_melting_temp s =
              64.9 + 41 * (gc_content s / 100 - 16.4 / real_of_int (seq_len s)))"
proof -
  from assms have ne: "seq_len s \<noteq> 0" by (simp add: valid_sequence_def seq_len_def)
  have short: "seq_len s < 14 \<longrightarrow>
            calculate_melting_temp s =
              4 * real (count_list (sequence s) CHR ''G'' + count_list (sequence s) CHR ''C'')
              + 2 * real (count_list (sequence s) CHR ''A'' + count_list (sequence s) CHR ''T'')"
    using ne by (simp add: calculate_melting_temp_def Let_def composition_get VALID_BASES_def)
  have long: "14 \<le> seq_len s \<longrightarrow>
            calculate_melting_temp s =
              64.9 + 41 * (gc_content s / 100 - 16.4 / real_of_int (seq_len s))"
    using ne by (simp add: calculate_melting_temp_def Let_def)
  from short long show ?thesis by (rule conjI)
qed

theorem melting_temp_regimes_witness:
  "valid_sequence \<lparr>sequence = ''ATGC'', seq_id = ''unnamed'', description = ''''\<rparr>
   \<and> calculate_melting_temp \<lparr>sequence = ''ATGC'', seq_id = ''unnamed'', description = ''''\<rparr> = 12
   \<and> valid_sequence \<lparr>sequence = ''ATGCATGCATGCAT'', seq_id = ''unnamed'', description = ''''\<rparr>
   \<and> calculate_melting_temp
        \<lparr>sequence = ''ATGCATGCATGCAT'', seq_id = ''unnamed'', description = ''''\<rparr> = 2411 / 70"
proof -
  let ?a = "\<lparr>sequence = ''ATGC'', seq_id = ''unnamed'', description = ''''\<rparr>"
  let ?b = "\<lparr>sequence = ''ATGCATGCATGCAT'', seq_id = ''unnamed'', description = ''''\<rparr>"
  have va: "valid_sequence ?a" by (simp add: valid_sequence_def VALID_BASES_def)
  have vb: "valid_sequence ?b" by (simp add: valid_sequence_def VALID_BASES_def)
  have la: "seq_len ?a < 14" by (simp add: seq_len_def)
  have lb: "14 \<le> seq_len ?b" by (simp add: seq_len_def)
  have ta: "calculate_melting_temp ?a = 12"
    using melting_temp_regimes [OF va] la by simp
  have gb: "gc_content ?b = 6 / 14 * 100"
    by (simp add: gc_content_eq [OF vb])
  have tb: "calculate_melting_temp ?b = 2411 / 70"
    using melting_temp_regimes [OF vb] lb by (simp add: gb seq_len_def)
  from va vb ta tb show ?thesis by simp
qed

section \<open>Indexing and slicing\<close>

lemma init_empty: "DNASequence_init [] sid desc = Inl InvalidSequenceError"
  by (simp add: init_result upper_Nil strip_def)

lemma create_slice_sequence_empty:
  "create_slice_sequence s [] = Inl InvalidSequenceError"
  by (simp add: create_slice_sequence_def Let_def init_empty)

lemma create_slice_sequence_error:
  "create_slice_sequence s sub = Inl e \<Longrightarrow> e = InvalidSequenceError"
  by (simp add: create_slice_sequence_def Let_def init_result split: if_splits)

lemma str_getslice_error:
  "str_getslice s start stop step = Inl e \<Longrightarrow> e = ValueError \<and> step = Some 0"
  by (auto simp: str_getslice_def Let_def split: if_splits option.splits)

lemma str_getslice_same_bound: "str_getslice s (Some k) (Some k) None = Inr []"
  by (simp add: str_getslice_def Let_def slice_length_def)

lemma str_getslice_past_end:
  assumes "int (length s) \<le> a"
  shows "str_getslice s (Some a) stop None = Inr []"
proof -
  let ?n = "int (length s)"
  from assms have a: "adjust_index ?n 1 a = ?n" by (simp add: adjust_index_def)
  have b: "adjust_index ?n 1 v \<le> ?n" for v by (simp add: adjust_index_def)
  show ?thesis
  proof (cases stop)
    case None
    then show ?thesis by (simp add: str_getslice_def Let_def slice_length_def a)
  next
    case (Some v)
    with b [of v] show ?thesis
      by (simp add: str_getslice_def Let_def slice_length_def a)
  qed
qed

lemma getitem_slice_empty:
  "str_getslice (sequence s) start stop step = Inr [] \<Longrightarrow>
     getitem s (Slice start stop step) = Inl InvalidSequenceError"
  by (simp add: getitem_def create_slice_sequence_empty)

lemma getitem_slice_not_IndexError:
  "getitem s (Slice start stop step) \<noteq> Inl IndexError"
proof
  assume a: "getitem s (Slice start stop step) = Inl IndexError"
  show False
  proof (cases "str_getslice (sequence s) start stop step")
    case (Inl e)
    with a have "e = IndexError" by (simp add: getitem_def)
    with str_getslice_error [OF Inl] show False by simp
  next
    case (Inr r)
    show False
    proof (cases "create_slice_sequence s r")
      case (Inl e)
      with a Inr have "e = IndexError" by (simp add: getitem_def)
      with create_slice_sequence_error [OF Inl] show False by simp
    next
      case (Inr d)
      with a \<open>str_getslice (sequence s) start stop step = Inr r\<close> show False
        by (simp add: getitem_def)
    qed
  qed
qed

lemma getitem_index_error_iff:
  "getitem s (Index i) = Inl IndexError \<longleftrightarrow> i < - seq_len s \<or> seq_len s \<le> i"
  by (auto simp: getitem_def str_getindex_def Let_def seq_len_def)

lemma adjust_index_range:
  "0 \<le> n \<Longrightarrow> 0 \<le> adjust_index n 1 v \<and> adjust_index n 1 v \<le> n"
  by (simp add: adjust_index_def)

lemma map_nth_take_drop:
  assumes "a + k \<le> length s"
  shows "map (\<lambda>i. s ! (a + i)) [0..<k] = take k (drop a s)"
proof (rule nth_equalityI)
  from assms show "length (map (\<lambda>i. s ! (a + i)) [0..<k]) = length (take k (drop a s))"
    by simp
next
  fix i assume "i < length (map (\<lambda>i. s ! (a + i)) [0..<k])"
  then have "i < k" by simp
  with assms show "map (\<lambda>i. s ! (a + i)) [0..<k] ! i = take k (drop a s) ! i"
    by simp
qed

text \<open>With both bounds given and no step, the general slice is \<open>slice2\<close>.\<close>

lemma str_getslice_slice2:
  "str_getslice s (Some i) (Some j) None = Inr (slice2 s i j)"
proof -
  let ?n = "int (length s)"
  let ?a = "adjust_index ?n 1 i"
  let ?b = "adjust_index ?n 1 j"
  have ra: "0 \<le> ?a \<and> ?a \<le> ?n" by (rule adjust_index_range) simp
  have rb: "0 \<le> ?b \<and> ?b \<le> ?n" by (rule adjust_index_range) simp
  have len: "nat (slice_length ?a ?b 1) = nat (?b - ?a)"
    by (simp add: slice_length_def)
  from ra rb have fit: "nat ?a + nat (?b - ?a) \<le> length s" by linarith
  have idx: "(\<lambda>k. s ! nat (?a + int k * 1)) = (\<lambda>k. s ! (nat ?a + k))"
  proof
    fix k
    from ra have "nat (?a + int k * 1) = nat ?a + k" by linarith
    then show "s ! nat (?a + int k * 1) = s ! (nat ?a + k)" by simp
  qed
  have "map (\<lambda>k. s ! nat (?a + int k * 1)) [0..<nat (slice_length ?a ?b 1)]
        = take (nat (?b - ?a)) (drop (nat ?a) s)"
    unfolding idx len by (rule map_nth_take_drop [OF fit])
  then show ?thesis
    by (simp add: str_getslice_def slice2_def Let_def)
qed

text \<open>
  C8. A slice whose extracted text is empty, such as \<open>s[k:k]\<close> or a range that starts
  at or behind the end, raises \<open>InvalidSequenceError\<close> from the constructor of the
  derived sequence. No slice raises \<open>IndexError\<close>; when \<open>__getitem__\<close> raises it, the
  key is a single position outside \<open>[0, len(s))\<close>. (A single position in
  \<open>[-len(s), 0)\<close> counts from the end and does not raise, see
  \<open>getitem_index_error_iff\<close>.)
\<close>

theorem getitem_empty_slice_error:
  "(str_getslice (sequence s) start stop step = Inr [] \<longrightarrow>
      getitem s (Slice start stop step) = Inl InvalidSequenceError)
   \<and> getitem s (Slice (Some k) (Some k) None) = Inl InvalidSequenceError
   \<and> (seq_len s \<le> a \<longrightarrow> getitem s (Slice (Some a) stop None) = Inl InvalidSequenceError)
   \<and> getitem s (Slice start stop step) \<noteq> Inl IndexError
   \<and> (getitem s key = Inl IndexError \<longrightarrow>
        (\<exists>i. key = Index i \<and> (i < 0 \<or> seq_len s \<le> i)))"
proof -
  have p1: "str_getslice (sequence s) start stop step = Inr [] \<longrightarrow>
      getitem s (Slice start stop step) = Inl InvalidSequenceError"
    by (simp add: getitem_slice_empty)
  have p2: "getitem s (Slice (Some k) (Some k) None) = Inl InvalidSequenceError"
    by (rule getitem_slice_empty [OF str_getslice_same_bound])
  have p3: "seq_len s \<le> a \<longrightarrow> getitem s (Slice (Some a) stop None) = Inl InvalidSequenceError"
    by (simp add: seq_len_def getitem_slice_empty str_getslice_past_end)
  have p4: "getitem s (Slice start stop step) \<noteq> Inl IndexError"
    by (rule getitem_slice_not_IndexError)
  have p5: "getitem s key = Inl IndexError \<longrightarrow>
        (\<exists>i. key = Index i \<and> (i < 0 \<or> seq_len s \<le> i))"
  proof
    assume e: "getitem s key = Inl IndexError"
    show "\<exists>i. key = Index i \<and> (i < 0 \<or> seq_len s \<le> i)"
    proof (cases key)
      case (Index i)
      with e have "i < - seq_len s \<or> seq_len s \<le> i"
        by (simp add: getitem_index_error_iff)
      moreover have "0 \<le> seq_len s" by (simp add: seq_len_def)
      ultimately have "i < 0 \<or> seq_len s \<le> i" by linarith
      with Index show ?thesis by simp
    next
      case (Slice x y z)
      with e getitem_slice_not_IndexError [of s x y z] show ?thesis by simp
    qed
  qed
  from p1 p2 p3 p4 p5 show ?thesis by blast
qed

theorem getitem_empty_slice_error_witness:
  "str_getslice ''ATGCATGC'' (Some 5) (Some 2) None = Inr []
   \<and> getitem \<lparr>sequence = ''ATGCATGC'', seq_id = ''test1'', description = ''''\<rparr>
        (Slice (Some 5) (Some 2) None) = Inl InvalidSequenceError
   \<and> getitem \<lparr>sequence = ''ATGCATGC'', seq_id = ''test1'', description = ''''\<rparr>
        (Slice (Some 3) (Some 3) None) = Inl InvalidSequenceError
   \<and> seq_len \<lparr>sequence = ''ATGCATGC'', seq_id = ''test1'', description = ''''\<rparr> \<le> 9
   \<and> getitem \<lparr>sequence = ''ATGCATGC'', seq_id = ''test1'', description = ''''\<rparr>
        (Slice (Some 9) (Some 14) None) = Inl InvalidSequenceError
   \<and> getitem \<lparr>sequence = ''ATGCATGC'', seq_id = ''test1'', description = ''''\<rparr>
        (Index 8) = Inl IndexError
   \<and> (\<exists>i. Index 8 = Index i
         \<and> (i < 0 \<or> seq_len \<lparr>sequence = ''ATGCATGC'', seq_id = ''test1'', description = ''''\<rparr> \<le> i))"
proof -
  let ?s = "\<lparr>sequence = ''ATGCATGC'', seq_id = ''test1'', description = ''''\<rparr>"
  have h1: "str_getslice ''ATGCATGC'' (Some 5) (Some 2) None = Inr []" by code_simp
  have h3: "seq_len ?s \<le> 9" by (simp add: seq_len_def)
  have h5: "getitem ?s (Index 8) = Inl IndexError" by code_simp
  from getitem_empty_slice_error
         [where s = ?s and start = "Some 5" and stop = "Some 2" and step = None
            and k = 3 and a = 9 and key = "Index 8"]
       getitem_empty_slice_error
         [where s = ?s and start = "Some 5" and stop = "Some 14" and step = None
            and k = 3 and a = 9 and key = "Index 8"]
       h1 h3 h5
  show ?thesis by simp
qed

section \<open>The ORF scan\<close>

lemma codon_in_range:
  assumes "0 \<le> j" and "length (slice2 s j (j + 3)) = 3"
  shows "j < int (length s) - 2"
proof -
  from assms(1) have "slice2 s j (j + 3) = take (nat (j + 3 - j)) (drop (nat j) s)"
    by (intro slice2_nonneg) simp_all
  then have "slice2 s j (j + 3) = take 3 (drop (nat j) s)" by simp
  with assms(2) have "3 \<le> length s - nat j" by simp
  with assms(1) show ?thesis by linarith
qed

lemma stop_codon_length: "c \<in> STOP_CODONS \<Longrightarrow> length c = 3"
  by (auto simp: STOP_CODONS_def)

lemma start_codon_length: "length START_CODON = 3"
  by (simp add: START_CODON_def)

lemma inner_scan_unfold_stop:
  "j < int (length s) - 2 \<Longrightarrow> slice2 s j (j + 3) \<in> STOP_CODONS \<Longrightarrow> inner_scan s j = Some j"
  by (subst inner_scan.simps) simp

lemma inner_scan_unfold_next:
  "j < int (length s) - 2 \<Longrightarrow> slice2 s j (j + 3) \<notin> STOP_CODONS \<Longrightarrow>
     inner_scan s j = inner_scan s (j + 3)"
  by (subst inner_scan.simps) simp

lemma inner_scan_unfold_end:
  "\<not> j < int (length s) - 2 \<Longrightarrow> inner_scan s j = None"
  by (subst inner_scan.simps) simp

lemma inner_scan_Some:
  "inner_scan s j0 = Some j \<Longrightarrow>
     j0 \<le> j \<and> j < int (length s) - 2 \<and> (j - j0) mod 3 = 0
     \<and> slice2 s j (j + 3) \<in> STOP_CODONS"
proof (induction s j0 rule: inner_scan.induct)
  case (1 s j0)
  show ?case
  proof (cases "j0 < int (length s) - 2")
    case False
    with "1.prems" show ?thesis by (simp add: inner_scan_unfold_end)
  next
    case True
    note in_range = this
    show ?thesis
    proof (cases "slice2 s j0 (j0 + 3) \<in> STOP_CODONS")
      case True
      with in_range "1.prems" have "j = j0" by (simp add: inner_scan_unfold_stop)
      with in_range True show ?thesis by simp
    next
      case False
      with in_range "1.prems" have "inner_scan s (j0 + 3) = Some j"
        by (simp add: inner_scan_unfold_next)
      from "1.IH" [OF in_range False this]
      have "j0 + 3 \<le> j" and "j < int (length s) - 2" and m: "(j - (j0 + 3)) mod 3 = 0"
        and "slice2 s j (j + 3) \<in> STOP_CODONS"
        by simp_all
      moreover from m have "(j - j0) mod 3 = 0" by presburger
      ultimately show ?thesis by simp
    qed
  qed
qed

lemma inner_scan_first:
  assumes "j0 \<le> j" and "(j - j0) mod 3 = 0" and "j < int (length s) - 2"
    and "slice2 s j (j + 3) \<in> STOP_CODONS"
    and "\<And>j'. j0 \<le> j' \<Longrightarrow> j' < j \<Longrightarrow> (j' - j0) mod 3 = 0 \<Longrightarrow>
           slice2 s j' (j' + 3) \<notin> STOP_CODONS"
  shows "inner_scan s j0 = Some j"
  using assms
proof (induction s j0 rule: inner_scan.induct)
  case (1 s j0)
  show ?case
  proof (cases "j0 = j")
    case True
    from "1.prems"(3) "1.prems"(4) have "inner_scan s j = Some j"
      by (rule inner_scan_unfold_stop)
    with True show ?thesis by simp
  next
    case False
    with "1.prems"(1) have lt: "j0 < j" by simp
    with "1.prems"(3) have in_range: "j0 < int (length s) - 2" by simp
    have no_stop: "slice2 s j0 (j0 + 3) \<notin> STOP_CODONS"
      by (rule "1.prems"(5)) (simp_all add: lt)
    from lt "1.prems"(2) have next_le: "j0 + 3 \<le> j" by presburger
    from "1.prems"(2) have next_mod: "(j - (j0 + 3)) mod 3 = 0" by presburger
    have rest: "slice2 s j' (j' + 3) \<notin> STOP_CODONS"
      if a: "j0 + 3 \<le> j'" and b: "j' < j" and c: "(j' - (j0 + 3)) mod 3 = 0" for j'
    proof (rule "1.prems"(5))
      from a show "j0 \<le> j'" by simp
      from b show "j' < j" .
      from c show "(j' - j0) mod 3 = 0" by presburger
    qed
    from "1.IH" [OF in_range no_stop next_le next_mod "1.prems"(3) "1.prems"(4) rest]
    have "inner_scan s (j0 + 3) = Some j" .
    with inner_scan_unfold_next [OF in_range no_stop] show ?thesis by simp
  qed
qed

lemma inner_scan_none:
  assumes "\<And>j'. j0 \<le> j' \<Longrightarrow> (j' - j0) mod 3 = 0 \<Longrightarrow> slice2 s j' (j' + 3) \<notin> STOP_CODONS"
  shows "inner_scan s j0 = None"
  using assms
proof (induction s j0 rule: inner_scan.induct)
  case (1 s j0)
  show ?case
  proof (cases "j0 < int (length s) - 2")
    case False
    then show ?thesis by (rule inner_scan_unfold_end)
  next
    case True
    have no_stop: "slice2 s j0 (j0 + 3) \<notin> STOP_CODONS"
      by (rule "1.prems") simp_all
    have rest: "slice2 s j' (j' + 3) \<notin> STOP_CODONS"
      if a: "j0 + 3 \<le> j'" and b: "(j' - (j0 + 3)) mod 3 = 0" for j'
    proof (rule "1.prems")
      from a show "j0 \<le> j'" by simp
      from b show "(j' - j0) mod 3 = 0" by presburger
    qed
    from inner_scan_unfold_next [OF True no_stop] "1.IH" [OF True no_stop rest]
    show ?thesis by simp
  qed
qed

lemma outer_scan_unfold_end:
  "\<not> i < int (length s) - 2 \<Longrightarrow> outer_scan s m i orfs = orfs"
  by (subst outer_scan.simps) simp

lemma outer_scan_unfold_skip:
  "i < int (length s) - 2 \<Longrightarrow> slice2 s i (i + 3) \<noteq> START_CODON \<Longrightarrow>
     outer_scan s m i orfs = outer_scan s m (i + 3) orfs"
  by (subst outer_scan.simps) simp

lemma outer_scan_unfold_open:
  "i < int (length s) - 2 \<Longrightarrow> slice2 s i (i + 3) = START_CODON \<Longrightarrow>
     inner_scan s (i + 3) = None \<Longrightarrow>
     outer_scan s m i orfs = outer_scan s m (i + 3) orfs"
  by (subst outer_scan.simps) simp

lemma outer_scan_unfold_orf:
  "i < int (length s) - 2 \<Longrightarrow> slice2 s i (i + 3) = START_CODON \<Longrightarrow>
     inner_scan s (i + 3) = Some j \<Longrightarrow>
     outer_scan s m i orfs =
       outer_scan s m (j + 3)
         (if m \<le> j + 3 - i then orfs @ [(i, j + 3, slice2 s i (j + 3))] else orfs)"
  by (subst outer_scan.simps) (simp add: Let_def)

text \<open>
  A property of tuples that holds for the list so far, and for every tuple the loop adds,
  holds for the list the loop returns.
\<close>

lemma outer_scan_invariant:
  assumes step: "\<And>i j. 0 \<le> i \<Longrightarrow> i < int (length s) - 2 \<Longrightarrow>
        slice2 s i (i + 3) = START_CODON \<Longrightarrow> inner_scan s (i + 3) = Some j \<Longrightarrow>
        m \<le> j + 3 - i \<Longrightarrow> Q (i, j + 3, slice2 s i (j + 3))"
    and "\<And>t. t \<in> set orfs \<Longrightarrow> Q t"
    and "0 \<le> pos"
    and "t \<in> set (outer_scan s m pos orfs)"
  shows "Q t"
  using assms(2-4)
proof (induction "nat (int (length s) - pos)" arbitrary: pos orfs rule: less_induct)
  case less
  show ?case
  proof (cases "pos < int (length s) - 2")
    case False
    with less.prems(3) have "t \<in> set orfs" by (simp add: outer_scan_unfold_end)
    then show ?thesis by (rule less.prems(1))
  next
    case True
    note in_range = this
    then have dec: "nat (int (length s) - (pos + 3)) < nat (int (length s) - pos)" by simp
    from less.prems(2) have nn: "0 \<le> pos + 3" by simp
    show ?thesis
    proof (cases "slice2 s pos (pos + 3) = START_CODON")
      case False
      with in_range less.prems(3) have "t \<in> set (outer_scan s m (pos + 3) orfs)"
        by (simp add: outer_scan_unfold_skip)
      with less.hyps [OF dec less.prems(1) nn] show ?thesis by blast
    next
      case True
      note start = this
      show ?thesis
      proof (cases "inner_scan s (pos + 3)")
        case None
        with in_range start less.prems(3) have "t \<in> set (outer_scan s m (pos + 3) orfs)"
          by (simp add: outer_scan_unfold_open)
        with less.hyps [OF dec less.prems(1) nn] show ?thesis by blast
      next
        case (Some j)
        let ?orfs = "if m \<le> j + 3 - pos then orfs @ [(pos, j + 3, slice2 s pos (j + 3))] else orfs"
        from inner_scan_Some [OF Some] have j: "pos + 3 \<le> j" by simp
        with in_range have dec': "nat (int (length s) - (j + 3)) < nat (int (length s) - pos)"
          by simp
        from j less.prems(2) have nn': "0 \<le> j + 3" by simp
        have acc: "Q u" if "u \<in> set ?orfs" for u
        proof (cases "u \<in> set orfs")
          case True
          then show ?thesis by (rule less.prems(1))
        next
          case False
          with that have "m \<le> j + 3 - pos" and "u = (pos, j + 3, slice2 s pos (j + 3))"
            by (auto split: if_splits)
          with step [OF less.prems(2) in_range start Some] show ?thesis by simp
        qed
        from less.prems(3) have "t \<in> set (outer_scan s m (j + 3) ?orfs)"
          by (simp only: outer_scan_unfold_orf [OF in_range start Some])
        with less.hyps [OF dec' acc nn'] show ?thesis by blast
      qed
    qed
  qed
qed

lemma find_orfs_frames:
  "find_orfs s m =
     outer_scan (sequence s) m 2 (outer_scan (sequence s) m 1 (outer_scan (sequence s) m 0 []))"
  by (simp add: find_orfs_def)

lemma find_orfs_invariant:
  assumes step: "\<And>i j. 0 \<le> i \<Longrightarrow> i < int (length (sequence s)) - 2 \<Longrightarrow>
        slice2 (sequence s) i (i + 3) = START_CODON \<Longrightarrow>
        inner_scan (sequence s) (i + 3) = Some j \<Longrightarrow>
        m \<le> j + 3 - i \<Longrightarrow> Q (i, j + 3, slice2 (sequence s) i (j + 3))"
    and "t \<in> set (find_orfs s m)"
  shows "Q t"
proof -
  let ?s = "sequence s"
  have empty: "Q u" if "u \<in> set []" for u :: "int \<times> int \<times> string"
    using that by simp
  have z0: "(0::int) \<le> 0" and z1: "(0::int) \<le> 1" and z2: "(0::int) \<le> 2" by simp_all
  have f0: "Q u" if "u \<in> set (outer_scan ?s m 0 [])" for u
    by (rule outer_scan_invariant [where Q = Q and s = ?s and m = m, OF step empty z0 that])
  have f1: "Q u" if "u \<in> set (outer_scan ?s m 1 (outer_scan ?s m 0 []))" for u
    by (rule outer_scan_invariant [where Q = Q and s = ?s and m = m, OF step f0 z1 that])
  from assms(2)
  have last: "t \<in> set (outer_scan ?s m 2 (outer_scan ?s m 1 (outer_scan ?s m 0 [])))"
    by (simp only: find_orfs_frames)
  show ?thesis
    by (rule outer_scan_invariant [where Q = Q and s = ?s and m = m, OF step f1 z2 last])
qed

lemma orf_text:
  assumes "0 \<le> i" and "i + 3 \<le> j" and "j + 3 \<le> int (length s)"
  shows "int (length (slice2 s i (j + 3))) = j + 3 - i"
    and "take 3 (slice2 s i (j + 3)) = slice2 s i (i + 3)"
    and "drop (length (slice2 s i (j + 3)) - 3) (slice2 s i (j + 3)) = slice2 s j (j + 3)"
proof -
  let ?n = "nat (j + 3 - i)"
  from assms have whole: "slice2 s i (j + 3) = take ?n (drop (nat i) s)"
    by (intro slice2_nonneg) simp_all
  from assms have first: "slice2 s i (i + 3) = take 3 (drop (nat i) s)"
    using slice2_nonneg [of i "i + 3" s] by simp
  from assms have last: "slice2 s j (j + 3) = take 3 (drop (nat j) s)"
    using slice2_nonneg [of j "j + 3" s] by simp
  from assms have fits: "?n \<le> length s - nat i" by linarith
  then have len: "length (slice2 s i (j + 3)) = ?n" by (simp add: whole)
  with assms show "int (length (slice2 s i (j + 3))) = j + 3 - i" by simp
  from assms have "3 \<le> ?n" by linarith
  then have "take 3 (take ?n (drop (nat i) s)) = take 3 (drop (nat i) s)"
    by (simp add: min_def)
  then show "take 3 (slice2 s i (j + 3)) = slice2 s i (i + 3)"
    by (simp only: whole first)
  from assms have a: "?n - (?n - 3) = 3" by linarith
  from assms have b: "?n - 3 + nat i = nat j" by linarith
  have d: "drop (?n - 3) (take ?n (drop (nat i) s)) = take 3 (drop (nat j) s)"
    by (simp add: drop_take a b)
  show "drop (length (slice2 s i (j + 3)) - 3) (slice2 s i (j + 3)) = slice2 s j (j + 3)"
    unfolding len unfolding whole last by (rule d)
qed

text \<open>
  C9. Every tuple \<open>(start, end, text)\<close> that \<open>find_orfs\<close> returns for a valid sequence
  lies inside the sequence, its text is the slice from \<open>start\<close> to \<open>end\<close>, the text
  begins with ATG and ends with one of the three stop codons, and \<open>end - start\<close> is a
  multiple of 3 that is at least 6.
\<close>

theorem find_orfs_tuple_shape:
  assumes "valid_sequence s"
    and "(start, end_pos, text) \<in> set (find_orfs s min_length_bp)"
  shows "text = slice2 (sequence s) start end_pos
    \<and> take 3 text = ''ATG''
    \<and> drop (length text - 3) text \<in> {''TAA'', ''TAG'', ''TGA''}
    \<and> (end_pos - start) mod 3 = 0
    \<and> 6 \<le> end_pos - start
    \<and> 0 \<le> start \<and> end_pos \<le> seq_len s
    \<and> int (length text) = end_pos - start"
proof -
  let ?s = "sequence s"
  let ?Q = "\<lambda>t. case t of (a, b, body) \<Rightarrow>
      body = slice2 ?s a b \<and> take 3 body = START_CODON
      \<and> drop (length body - 3) body \<in> STOP_CODONS
      \<and> (b - a) mod 3 = 0 \<and> 6 \<le> b - a \<and> 0 \<le> a \<and> b \<le> int (length ?s)
      \<and> int (length body) = b - a"
  have step: "?Q (i, j + 3, slice2 ?s i (j + 3))"
    if i: "0 \<le> i" and "i < int (length ?s) - 2" and start: "slice2 ?s i (i + 3) = START_CODON"
      and found: "inner_scan ?s (i + 3) = Some j" and "min_length_bp \<le> j + 3 - i" for i j
  proof -
    from inner_scan_Some [OF found]
    have j: "i + 3 \<le> j" and je: "j < int (length ?s) - 2"
      and m: "(j - (i + 3)) mod 3 = 0" and stop: "slice2 ?s j (j + 3) \<in> STOP_CODONS"
      by simp_all
    from je have fit: "j + 3 \<le> int (length ?s)" by simp
    from m have m3: "(j + 3 - i) mod 3 = 0" by presburger
    from j have six: "6 \<le> j + 3 - i" by simp
    note body = orf_text [OF i j fit]
    from body(2) start have t1: "take 3 (slice2 ?s i (j + 3)) = START_CODON" by simp
    from body(3) stop
    have t2: "drop (length (slice2 ?s i (j + 3)) - 3) (slice2 ?s i (j + 3)) \<in> STOP_CODONS"
      by simp
    from t1 t2 m3 six i fit body(1) show ?thesis by simp
  qed
  have "?Q (start, end_pos, text)"
    by (rule find_orfs_invariant [where Q = ?Q and s = s and m = min_length_bp,
          OF step assms(2)])
  then show ?thesis
    unfolding START_CODON_def STOP_CODONS_def seq_len_def prod.case .
qed

theorem find_orfs_tuple_shape_witness:
  "valid_sequence \<lparr>sequence = ''ATGAAATAGCATGCCCTGAATGA'', seq_id = ''unnamed'', description = ''''\<rparr>
   \<and> find_orfs \<lparr>sequence = ''ATGAAATAGCATGCCCTGAATGA'', seq_id = ''unnamed'', description = ''''\<rparr> 0
       = [(0, 9, ''ATGAAATAG''), (10, 19, ''ATGCCCTGA'')]
   \<and> ''ATGCCCTGA'' = slice2 ''ATGAAATAGCATGCCCTGAATGA'' 10 19
   \<and> take 3 ''ATGCCCTGA'' = ''ATG''
   \<and> drop (length ''ATGCCCTGA'' - 3) ''ATGCCCTGA'' \<in> {''TAA'', ''TAG'', ''TGA''}"
proof -
  let ?s = "\<lparr>sequence = ''ATGAAATAGCATGCCCTGAATGA'', seq_id = ''unnamed'', description = ''''\<rparr>"
  have v: "valid_sequence ?s" by (simp add: valid_sequence_def VALID_BASES_def)
  have r: "find_orfs ?s 0 = [(0, 9, ''ATGAAATAG''), (10, 19, ''ATGCCCTGA'')]" by code_simp
  then have mem: "(10, 19, ''ATGCCCTGA'') \<in> set (find_orfs ?s 0)" by simp
  note shape = find_orfs_tuple_shape [OF v mem]
  from shape have c1: "''ATGCCCTGA'' = slice2 (sequence ?s) 10 19" by (rule conjunct1)
  from shape have c2: "take 3 ''ATGCCCTGA'' = ''ATG''" by (elim conjE)
  from shape have c3: "drop (length ''ATGCCCTGA'' - 3) ''ATGCCCTGA'' \<in> {''TAA'', ''TAG'', ''TGA''}"
    by (elim conjE)
  from c1 have c1': "''ATGCCCTGA'' = slice2 ''ATGAAATAGCATGCCCTGAATGA'' 10 19"
    by (simp only: DNASequence.simps)
  from v r c1' c2 c3 show ?thesis by (intro conjI)
qed

lemma start_codon_in_range:
  assumes "0 \<le> i" and "slice2 s i (i + 3) = START_CODON"
  shows "i < int (length s) - 2"
proof -
  from assms(2) have "length (slice2 s i (i + 3)) = 3" by (simp add: start_codon_length)
  with assms(1) show ?thesis by (rule codon_in_range)
qed

lemma stop_codon_in_range:
  assumes "0 \<le> j" and "slice2 s j (j + 3) \<in> STOP_CODONS"
  shows "j < int (length s) - 2"
proof -
  from assms(2) have "length (slice2 s j (j + 3)) = 3" by (rule stop_codon_length)
  with assms(1) show ?thesis by (rule codon_in_range)
qed

lemma outer_scan_after_stop:
  assumes i: "0 \<le> i" and start: "slice2 s i (i + 3) = START_CODON"
    and j: "i + 3 \<le> j" and frame: "(j - i) mod 3 = 0"
    and stop: "slice2 s j (j + 3) \<in> STOP_CODONS"
    and first: "\<And>j'. i + 3 \<le> j' \<Longrightarrow> j' < j \<Longrightarrow> (j' - i) mod 3 = 0 \<Longrightarrow>
                  slice2 s j' (j' + 3) \<notin> STOP_CODONS"
  shows "outer_scan s m i orfs =
     outer_scan s m (j + 3)
       (if m \<le> j + 3 - i then orfs @ [(i, j + 3, slice2 s i (j + 3))] else orfs)"
proof -
  from i start have in_range: "i < int (length s) - 2" by (rule start_codon_in_range)
  from i j have "0 \<le> j" by simp
  then have j_range: "j < int (length s) - 2" using stop by (rule stop_codon_in_range)
  from frame have frame': "(j - (i + 3)) mod 3 = 0" by presburger
  have first': "slice2 s j' (j' + 3) \<notin> STOP_CODONS"
    if a: "i + 3 \<le> j'" and b: "j' < j" and c: "(j' - (i + 3)) mod 3 = 0" for j'
  proof (rule first [OF a b])
    from c show "(j' - i) mod 3 = 0" by presburger
  qed
  have "inner_scan s (i + 3) = Some j"
    by (rule inner_scan_first [OF j frame' j_range stop first'])
  with in_range start show ?thesis by (rule outer_scan_unfold_orf)
qed

lemma outer_scan_no_stop:
  assumes i: "0 \<le> i" and start: "slice2 s i (i + 3) = START_CODON"
    and none: "\<And>j. i + 3 \<le> j \<Longrightarrow> (j - i) mod 3 = 0 \<Longrightarrow>
                  slice2 s j (j + 3) \<notin> STOP_CODONS"
  shows "outer_scan s m i orfs = outer_scan s m (i + 3) orfs"
proof -
  from i start have in_range: "i < int (length s) - 2" by (rule start_codon_in_range)
  have none': "slice2 s j (j + 3) \<notin> STOP_CODONS"
    if a: "i + 3 \<le> j" and c: "(j - (i + 3)) mod 3 = 0" for j
  proof (rule none [OF a])
    from c show "(j - i) mod 3 = 0" by presburger
  qed
  have "inner_scan s (i + 3) = None" by (rule inner_scan_none [OF none'])
  with in_range start show ?thesis by (rule outer_scan_unfold_open)
qed

lemma find_orfs_min_length:
  assumes "(a, b, body) \<in> set (find_orfs s m)"
  shows "m \<le> b - a \<and> int (length body) = b - a"
proof -
  let ?s = "sequence s"
  let ?Q = "\<lambda>t. case t of (a, b, body) \<Rightarrow> m \<le> b - a \<and> int (length body) = b - a"
  have step: "?Q (i, j + 3, slice2 ?s i (j + 3))"
    if i: "0 \<le> i" and "i < int (length ?s) - 2" and "slice2 ?s i (i + 3) = START_CODON"
      and found: "inner_scan ?s (i + 3) = Some j" and long: "m \<le> j + 3 - i" for i j
  proof -
    from inner_scan_Some [OF found]
    have j: "i + 3 \<le> j" and je: "j < int (length ?s) - 2" by simp_all
    from je have fit: "j + 3 \<le> int (length ?s)" by simp
    from orf_text(1) [OF i j fit] long show ?thesis by simp
  qed
  have "?Q (a, b, body)"
    by (rule find_orfs_invariant [where Q = ?Q and s = s and m = m, OF step assms])
  then show ?thesis unfolding prod.case .
qed

text \<open>The list built so far is kept: the loop only appends to it.\<close>

lemma outer_scan_acc:
  "outer_scan s m i orfs = orfs @ outer_scan s m i []"
proof (induction "nat (int (length s) - i)" arbitrary: i orfs rule: less_induct)
  case less
  show ?case
  proof (cases "i < int (length s) - 2")
    case False
    then show ?thesis by (simp add: outer_scan_unfold_end)
  next
    case True
    note in_range = this
    then have dec: "nat (int (length s) - (i + 3)) < nat (int (length s) - i)" by simp
    show ?thesis
    proof (cases "slice2 s i (i + 3) = START_CODON")
      case False
      have "outer_scan s m i orfs = outer_scan s m (i + 3) orfs"
        by (rule outer_scan_unfold_skip [OF in_range False])
      also have "\<dots> = orfs @ outer_scan s m (i + 3) []" by (rule less.hyps [OF dec])
      also have "outer_scan s m (i + 3) [] = outer_scan s m i []"
        by (rule outer_scan_unfold_skip [OF in_range False, symmetric])
      finally show ?thesis .
    next
      case True
      note start = this
      show ?thesis
      proof (cases "inner_scan s (i + 3)")
        case None
        have "outer_scan s m i orfs = outer_scan s m (i + 3) orfs"
          by (rule outer_scan_unfold_open [OF in_range start None])
        also have "\<dots> = orfs @ outer_scan s m (i + 3) []" by (rule less.hyps [OF dec])
        also have "outer_scan s m (i + 3) [] = outer_scan s m i []"
          by (rule outer_scan_unfold_open [OF in_range start None, symmetric])
        finally show ?thesis .
      next
        case (Some j)
        let ?c = "if m \<le> j + 3 - i then [(i, j + 3, slice2 s i (j + 3))] else []"
        from inner_scan_Some [OF Some] have "i + 3 \<le> j" by simp
        with in_range have dec': "nat (int (length s) - (j + 3)) < nat (int (length s) - i)"
          by simp
        have a: "outer_scan s m i orfs = outer_scan s m (j + 3) (orfs @ ?c)"
          by (simp add: outer_scan_unfold_orf [OF in_range start Some])
        have b: "outer_scan s m i [] = outer_scan s m (j + 3) ?c"
          by (simp add: outer_scan_unfold_orf [OF in_range start Some])
        have "outer_scan s m (j + 3) (orfs @ ?c) = (orfs @ ?c) @ outer_scan s m (j + 3) []"
          by (rule less.hyps [OF dec'])
        moreover have "outer_scan s m (j + 3) ?c = ?c @ outer_scan s m (j + 3) []"
          by (rule less.hyps [OF dec'])
        ultimately show ?thesis using a b by simp
      qed
    qed
  qed
qed

text \<open>
  The positions the loop visits do not depend on \<open>min_length_bp\<close>: a larger minimum
  only removes tuples from the result.
\<close>

lemma outer_scan_filter:
  assumes "m' \<le> m"
  shows "outer_scan s m i [] =
     filter (\<lambda>t. case t of (a, b, body) \<Rightarrow> m \<le> b - a) (outer_scan s m' i [])"
proof (induction "nat (int (length s) - i)" arbitrary: i rule: less_induct)
  case less
  let ?P = "\<lambda>t. case t of (a, b, body) \<Rightarrow> m \<le> b - (a::int)"
  show ?case
  proof (cases "i < int (length s) - 2")
    case False
    then show ?thesis by (simp add: outer_scan_unfold_end)
  next
    case True
    note in_range = this
    then have dec: "nat (int (length s) - (i + 3)) < nat (int (length s) - i)" by simp
    show ?thesis
    proof (cases "slice2 s i (i + 3) = START_CODON")
      case False
      from less.hyps [OF dec] show ?thesis
        by (simp only: outer_scan_unfold_skip [OF in_range False])
    next
      case True
      note start = this
      show ?thesis
      proof (cases "inner_scan s (i + 3)")
        case None
        from less.hyps [OF dec] show ?thesis
          by (simp only: outer_scan_unfold_open [OF in_range start None])
      next
        case (Some j)
        let ?t = "(i, j + 3, slice2 s i (j + 3))"
        let ?c = "if m \<le> j + 3 - i then [?t] else []"
        let ?c' = "if m' \<le> j + 3 - i then [?t] else []"
        from inner_scan_Some [OF Some] have "i + 3 \<le> j" by simp
        with in_range have dec': "nat (int (length s) - (j + 3)) < nat (int (length s) - i)"
          by simp
        have ua: "outer_scan s m i [] = outer_scan s m (j + 3) ?c"
          by (simp add: outer_scan_unfold_orf [OF in_range start Some])
        have ub: "outer_scan s m' i [] = outer_scan s m' (j + 3) ?c'"
          by (simp add: outer_scan_unfold_orf [OF in_range start Some])
        have a: "outer_scan s m i [] = ?c @ outer_scan s m (j + 3) []"
          unfolding ua by (rule outer_scan_acc)
        have b: "outer_scan s m' i [] = ?c' @ outer_scan s m' (j + 3) []"
          unfolding ub by (rule outer_scan_acc)
        from assms have c: "filter ?P ?c' = ?c" by simp
        from less.hyps [OF dec']
        have "outer_scan s m (j + 3) [] = filter ?P (outer_scan s m' (j + 3) [])" .
        with a b c show ?thesis by simp
      qed
    qed
  qed
qed

lemma find_orfs_concat:
  "find_orfs s m =
     outer_scan (sequence s) m 0 [] @ outer_scan (sequence s) m 1 []
       @ outer_scan (sequence s) m 2 []"
proof -
  let ?s = "sequence s"
  have "find_orfs s m = outer_scan ?s m 2 (outer_scan ?s m 1 (outer_scan ?s m 0 []))"
    by (rule find_orfs_frames)
  also have "\<dots> = outer_scan ?s m 1 (outer_scan ?s m 0 []) @ outer_scan ?s m 2 []"
    by (rule outer_scan_acc)
  also have "outer_scan ?s m 1 (outer_scan ?s m 0 [])
      = outer_scan ?s m 0 [] @ outer_scan ?s m 1 []"
    by (rule outer_scan_acc)
  finally show ?thesis by simp
qed

lemma find_orfs_filter:
  assumes "m' \<le> m"
  shows "find_orfs s m =
     filter (\<lambda>t. case t of (a, b, body) \<Rightarrow> m \<le> b - a) (find_orfs s m')"
  by (simp add: find_orfs_concat outer_scan_filter [OF assms, symmetric])

text \<open>
  C3. For a valid sequence and any \<open>min_length_bp\<close>: every tuple \<open>find_orfs\<close> returns
  spans at least \<open>min_length_bp\<close> symbols, and the result is the three frames' results
  in order. At an ATG at position \<open>i\<close> whose first in-frame stop codon is at \<open>j\<close>, the
  outer loop yields the list so far, then the candidate if it is long enough, then
  what the scan from \<open>j + 3\<close>, directly behind the stop codon, yields; this holds
  whether or not the candidate was long enough. At an ATG with no in-frame stop codon
  behind it, the loop yields the list so far and then what the scan from \<open>i + 3\<close>
  yields: nothing is emitted for that ATG. The positions visited do not depend on
  \<open>min_length_bp\<close>: a larger minimum only filters the result. The loop keeps the list
  it was given. Both loops are total functions, so no case raises.
\<close>

theorem orf_scan_resumes_after_stop:
  assumes "valid_sequence s" and "0 \<le> i"
    and "slice2 (sequence s) i (i + 3) = START_CODON"
  shows "(\<forall>t \<in> set (find_orfs s m).
            case t of (a, b, body) \<Rightarrow> m \<le> b - a \<and> int (length body) = b - a)
    \<and> find_orfs s m =
          outer_scan (sequence s) m 0 [] @ outer_scan (sequence s) m 1 []
            @ outer_scan (sequence s) m 2 []
    \<and> (\<forall>j. i + 3 \<le> j \<and> (j - i) mod 3 = 0
            \<and> slice2 (sequence s) j (j + 3) \<in> STOP_CODONS
            \<and> (\<forall>j'. i + 3 \<le> j' \<and> j' < j \<and> (j' - i) mod 3 = 0
                   \<longrightarrow> slice2 (sequence s) j' (j' + 3) \<notin> STOP_CODONS)
          \<longrightarrow> outer_scan (sequence s) m i orfs =
                orfs
                @ (if m \<le> j + 3 - i then [(i, j + 3, slice2 (sequence s) i (j + 3))] else [])
                @ outer_scan (sequence s) m (j + 3) [])
    \<and> ((\<forall>j. i + 3 \<le> j \<and> (j - i) mod 3 = 0
             \<longrightarrow> slice2 (sequence s) j (j + 3) \<notin> STOP_CODONS)
          \<longrightarrow> outer_scan (sequence s) m i orfs = orfs @ outer_scan (sequence s) m (i + 3) [])
    \<and> (m' \<le> m \<longrightarrow>
          find_orfs s m =
            filter (\<lambda>t. case t of (a, b, body) \<Rightarrow> m \<le> b - a) (find_orfs s m'))
    \<and> (\<forall>k acc. outer_scan (sequence s) m k acc = acc @ outer_scan (sequence s) m k [])"
proof (intro conjI)
  show "\<forall>t \<in> set (find_orfs s m).
          case t of (a, b, body) \<Rightarrow> m \<le> b - a \<and> int (length body) = b - a"
  proof
    fix t assume t: "t \<in> set (find_orfs s m)"
    obtain a b body where eq: "t = (a, b, body)" by (cases t)
    with t have "(a, b, body) \<in> set (find_orfs s m)" by simp
    from find_orfs_min_length [OF this] eq
    show "case t of (a, b, body) \<Rightarrow> m \<le> b - a \<and> int (length body) = b - a" by simp
  qed
next
  show "find_orfs s m =
          outer_scan (sequence s) m 0 [] @ outer_scan (sequence s) m 1 []
            @ outer_scan (sequence s) m 2 []"
    by (rule find_orfs_concat)
next
  show "\<forall>j. i + 3 \<le> j \<and> (j - i) mod 3 = 0
            \<and> slice2 (sequence s) j (j + 3) \<in> STOP_CODONS
            \<and> (\<forall>j'. i + 3 \<le> j' \<and> j' < j \<and> (j' - i) mod 3 = 0
                   \<longrightarrow> slice2 (sequence s) j' (j' + 3) \<notin> STOP_CODONS)
          \<longrightarrow> outer_scan (sequence s) m i orfs =
                orfs
                @ (if m \<le> j + 3 - i then [(i, j + 3, slice2 (sequence s) i (j + 3))] else [])
                @ outer_scan (sequence s) m (j + 3) []"
  proof (intro allI impI, elim conjE)
    fix j
    assume j: "i + 3 \<le> j" and frame: "(j - i) mod 3 = 0"
      and stop: "slice2 (sequence s) j (j + 3) \<in> STOP_CODONS"
      and first: "\<forall>j'. i + 3 \<le> j' \<and> j' < j \<and> (j' - i) mod 3 = 0
                   \<longrightarrow> slice2 (sequence s) j' (j' + 3) \<notin> STOP_CODONS"
    let ?t = "(i, j + 3, slice2 (sequence s) i (j + 3))"
    let ?c = "if m \<le> j + 3 - i then [?t] else []"
    have first': "slice2 (sequence s) j' (j' + 3) \<notin> STOP_CODONS"
      if "i + 3 \<le> j'" and "j' < j" and "(j' - i) mod 3 = 0" for j'
      using first [rule_format, of j'] that by simp
    have "outer_scan (sequence s) m i orfs =
            outer_scan (sequence s) m (j + 3) (if m \<le> j + 3 - i then orfs @ [?t] else orfs)"
      by (rule outer_scan_after_stop [OF assms(2) assms(3) j frame stop first'])
    also have "(if m \<le> j + 3 - i then orfs @ [?t] else orfs) = orfs @ ?c" by simp
    also have "outer_scan (sequence s) m (j + 3) (orfs @ ?c)
        = (orfs @ ?c) @ outer_scan (sequence s) m (j + 3) []"
      by (rule outer_scan_acc)
    finally show "outer_scan (sequence s) m i orfs =
                orfs @ ?c @ outer_scan (sequence s) m (j + 3) []"
      by (simp only: append_assoc)
  qed
next
  show "(\<forall>j. i + 3 \<le> j \<and> (j - i) mod 3 = 0
             \<longrightarrow> slice2 (sequence s) j (j + 3) \<notin> STOP_CODONS)
          \<longrightarrow> outer_scan (sequence s) m i orfs = orfs @ outer_scan (sequence s) m (i + 3) []"
  proof
    assume none: "\<forall>j. i + 3 \<le> j \<and> (j - i) mod 3 = 0
             \<longrightarrow> slice2 (sequence s) j (j + 3) \<notin> STOP_CODONS"
    have none': "slice2 (sequence s) j (j + 3) \<notin> STOP_CODONS"
      if "i + 3 \<le> j" and "(j - i) mod 3 = 0" for j
      using none [rule_format, of j] that by simp
    have "outer_scan (sequence s) m i orfs = outer_scan (sequence s) m (i + 3) orfs"
      by (rule outer_scan_no_stop [OF assms(2) assms(3) none'])
    also have "\<dots> = orfs @ outer_scan (sequence s) m (i + 3) []"
      by (rule outer_scan_acc)
    finally show "outer_scan (sequence s) m i orfs
        = orfs @ outer_scan (sequence s) m (i + 3) []" .
  qed
next
  show "m' \<le> m \<longrightarrow>
          find_orfs s m =
            filter (\<lambda>t. case t of (a, b, body) \<Rightarrow> m \<le> b - a) (find_orfs s m')"
    by (intro impI find_orfs_filter)
next
  show "\<forall>k acc. outer_scan (sequence s) m k acc = acc @ outer_scan (sequence s) m k []"
    by (intro allI outer_scan_acc)
qed

theorem orf_scan_resumes_after_stop_witness:
  "valid_sequence \<lparr>sequence = ''ATGTAAATGAAAAAATAG'', seq_id = ''unnamed'', description = ''''\<rparr>
   \<and> slice2 ''ATGTAAATGAAAAAATAG'' 0 3 = START_CODON
   \<and> slice2 ''ATGTAAATGAAAAAATAG'' 3 6 \<in> STOP_CODONS
   \<and> slice2 ''ATGTAAATGAAAAAATAG'' 6 9 = START_CODON
   \<and> slice2 ''ATGTAAATGAAAAAATAG'' 15 18 \<in> STOP_CODONS
   \<and> outer_scan ''ATGTAAATGAAAAAATAG'' 7 0 [] = outer_scan ''ATGTAAATGAAAAAATAG'' 7 6 []
   \<and> outer_scan ''ATGTAAATGAAAAAATAG'' 7 6 [] = [(6, 18, ''ATGAAAAAATAG'')]
   \<and> find_orfs \<lparr>sequence = ''ATGTAAATGAAAAAATAG'', seq_id = ''unnamed'', description = ''''\<rparr> 7
       = [(6, 18, ''ATGAAAAAATAG'')]
   \<and> find_orfs \<lparr>sequence = ''ATGTAAATGAAAAAATAG'', seq_id = ''unnamed'', description = ''''\<rparr> 0
       = [(0, 6, ''ATGTAA''), (6, 18, ''ATGAAAAAATAG'')]
   \<and> find_orfs \<lparr>sequence = ''ATGTAAATGAAAAAATAG'', seq_id = ''unnamed'', description = ''''\<rparr> 7
       = filter (\<lambda>t. case t of (a, b, body) \<Rightarrow> 7 \<le> b - a)
           (find_orfs
              \<lparr>sequence = ''ATGTAAATGAAAAAATAG'', seq_id = ''unnamed'', description = ''''\<rparr> 0)
   \<and> valid_sequence \<lparr>sequence = ''ATGCATGAAATAGC'', seq_id = ''unnamed'', description = ''''\<rparr>
   \<and> slice2 ''ATGCATGAAATAGC'' 0 3 = START_CODON
   \<and> outer_scan ''ATGCATGAAATAGC'' 0 0 [] = outer_scan ''ATGCATGAAATAGC'' 0 3 []
   \<and> find_orfs \<lparr>sequence = ''ATGCATGAAATAGC'', seq_id = ''unnamed'', description = ''''\<rparr> 0
       = [(4, 13, ''ATGAAATAG'')]"
proof -
  let ?a = "''ATGTAAATGAAAAAATAG''"
  let ?b = "''ATGCATGAAATAGC''"
  let ?A = "\<lparr>sequence = ?a, seq_id = ''unnamed'', description = ''''\<rparr>"
  let ?B = "\<lparr>sequence = ?b, seq_id = ''unnamed'', description = ''''\<rparr>"
  have va: "valid_sequence ?A" by (simp add: valid_sequence_def VALID_BASES_def)
  have vb: "valid_sequence ?B" by (simp add: valid_sequence_def VALID_BASES_def)
  have z0: "(0::int) \<le> 0" and z6: "(0::int) \<le> 6" and z7: "(0::int) \<le> 7" by simp_all
  have a0: "slice2 ?a 0 3 = START_CODON" by code_simp
  have a3: "slice2 ?a 3 6 \<in> STOP_CODONS" by code_simp
  have a6: "slice2 ?a 6 9 = START_CODON" by code_simp
  have a9: "slice2 ?a 9 12 \<notin> STOP_CODONS" by code_simp
  have a12: "slice2 ?a 12 15 \<notin> STOP_CODONS" by code_simp
  have a15: "slice2 ?a 15 18 \<in> STOP_CODONS" by code_simp
  have a618: "slice2 ?a 6 18 = ''ATGAAAAAATAG''" by code_simp
  have rest_a: "outer_scan ?a 7 18 [] = []" by code_simp
  have f1a: "outer_scan ?a 7 1 [] = []" by code_simp
  have f2a: "outer_scan ?a 7 2 [] = []" by code_simp
  have all_a: "find_orfs ?A 0 = [(0, 6, ''ATGTAA''), (6, 18, ''ATGAAAAAATAG'')]" by code_simp
  have b0: "slice2 ?b 0 3 = START_CODON" by code_simp
  have b3: "slice2 ?b 3 6 \<notin> STOP_CODONS" by code_simp
  have b6: "slice2 ?b 6 9 \<notin> STOP_CODONS" by code_simp
  have b9: "slice2 ?b 9 12 \<notin> STOP_CODONS" by code_simp
  have rest_b: "outer_scan ?b 0 3 [] = []" by code_simp
  have f1b: "outer_scan ?b 0 1 [] = [(4, 13, ''ATGAAATAG'')]" by code_simp
  have f2b: "outer_scan ?b 0 2 [] = []" by code_simp
  have sa0: "slice2 (sequence ?A) 0 (0 + 3) = START_CODON" using a0 by simp
  have sa6: "slice2 (sequence ?A) 6 (6 + 3) = START_CODON" using a6 by simp
  have sb0: "slice2 (sequence ?B) 0 (0 + 3) = START_CODON" using b0 by simp
  have first0: "\<forall>j'. 0 + 3 \<le> j' \<and> j' < 3 \<and> (j' - 0) mod 3 = 0
                 \<longrightarrow> slice2 (sequence ?A) j' (j' + 3) \<notin> STOP_CODONS"
  proof (intro allI impI)
    fix j' :: int assume "0 + 3 \<le> j' \<and> j' < 3 \<and> (j' - 0) mod 3 = 0"
    then have False by linarith
    then show "slice2 (sequence ?A) j' (j' + 3) \<notin> STOP_CODONS" ..
  qed
  have hyp0: "0 + 3 \<le> (3::int) \<and> (3 - 0) mod 3 = (0::int)
      \<and> slice2 (sequence ?A) 3 (3 + 3) \<in> STOP_CODONS
      \<and> (\<forall>j'. 0 + 3 \<le> j' \<and> j' < 3 \<and> (j' - 0) mod 3 = 0
                 \<longrightarrow> slice2 (sequence ?A) j' (j' + 3) \<notin> STOP_CODONS)"
    using a3 first0 by simp
  have first6: "\<forall>j'. 6 + 3 \<le> j' \<and> j' < 15 \<and> (j' - 6) mod 3 = 0
                 \<longrightarrow> slice2 (sequence ?A) j' (j' + 3) \<notin> STOP_CODONS"
  proof (intro allI impI)
    fix j' :: int assume "6 + 3 \<le> j' \<and> j' < 15 \<and> (j' - 6) mod 3 = 0"
    then have "j' = 9 \<or> j' = 12" by presburger
    with a9 a12 show "slice2 (sequence ?A) j' (j' + 3) \<notin> STOP_CODONS" by auto
  qed
  have hyp6: "6 + 3 \<le> (15::int) \<and> (15 - 6) mod 3 = (0::int)
      \<and> slice2 (sequence ?A) 15 (15 + 3) \<in> STOP_CODONS
      \<and> (\<forall>j'. 6 + 3 \<le> j' \<and> j' < 15 \<and> (j' - 6) mod 3 = 0
                 \<longrightarrow> slice2 (sequence ?A) j' (j' + 3) \<notin> STOP_CODONS)"
    using a15 first6 by simp
  have none_b: "\<forall>j. 0 + 3 \<le> j \<and> (j - 0) mod 3 = 0
                 \<longrightarrow> slice2 (sequence ?B) j (j + 3) \<notin> STOP_CODONS"
  proof (intro allI impI notI)
    fix j :: int
    assume j: "0 + 3 \<le> j \<and> (j - 0) mod 3 = 0"
      and stop: "slice2 (sequence ?B) j (j + 3) \<in> STOP_CODONS"
    from j have "0 \<le> j" by simp
    from stop_codon_in_range [OF this stop] have "j < 12" by simp
    with j have "j = 3 \<or> j = 6 \<or> j = 9" by presburger
    with stop b3 b6 b9 show False by auto
  qed
  note at0 = orf_scan_resumes_after_stop [OF va z0 sa0, where m = 7 and orfs = "[]" and m' = 0]
  note at6 = orf_scan_resumes_after_stop [OF va z6 sa6, where m = 7 and orfs = "[]" and m' = 0]
  note open_b = orf_scan_resumes_after_stop [OF vb z0 sb0, where m = 0 and orfs = "[]" and m' = 0]
  have "outer_scan (sequence ?A) 7 0 [] =
      [] @ (if (7::int) \<le> 3 + 3 - 0 then [(0, 3 + 3, slice2 (sequence ?A) 0 (3 + 3))] else [])
         @ outer_scan (sequence ?A) 7 (3 + 3) []"
    by (rule mp [OF spec [OF at0 [THEN conjunct2, THEN conjunct2, THEN conjunct1],
          where x = 3] hyp0])
  then have r0: "outer_scan ?a 7 0 [] = outer_scan ?a 7 6 []" by simp
  have "outer_scan (sequence ?A) 7 6 [] =
      [] @ (if (7::int) \<le> 15 + 3 - 6 then [(6, 15 + 3, slice2 (sequence ?A) 6 (15 + 3))] else [])
         @ outer_scan (sequence ?A) 7 (15 + 3) []"
    by (rule mp [OF spec [OF at6 [THEN conjunct2, THEN conjunct2, THEN conjunct1],
          where x = 15] hyp6])
  then have r6: "outer_scan ?a 7 6 [] = [(6, 18, ''ATGAAAAAATAG'')]"
    by (simp add: a618 rest_a)
  from at0 [THEN conjunct2, THEN conjunct1]
  have ra: "find_orfs ?A 7 = [(6, 18, ''ATGAAAAAATAG'')]"
    by (simp add: r0 r6 f1a f2a)
  have fa: "find_orfs ?A 7
      = filter (\<lambda>t. case t of (a, b, body) \<Rightarrow> 7 \<le> b - a) (find_orfs ?A 0)"
    by (rule mp [OF at0 [THEN conjunct2, THEN conjunct2, THEN conjunct2, THEN conjunct2,
          THEN conjunct1] z7])
  have "outer_scan (sequence ?B) 0 0 [] = [] @ outer_scan (sequence ?B) 0 (0 + 3) []"
    by (rule mp [OF open_b [THEN conjunct2, THEN conjunct2, THEN conjunct2, THEN conjunct1]
          none_b])
  then have rb0: "outer_scan ?b 0 0 [] = outer_scan ?b 0 3 []" by simp
  from open_b [THEN conjunct2, THEN conjunct1]
  have rb: "find_orfs ?B 0 = [(4, 13, ''ATGAAATAG'')]"
    by (simp add: rb0 rest_b f1b f2b)
  from va a0 a3 a6 a15 r0 r6 ra all_a fa vb b0 rb0 rb show ?thesis by (intro conjI)
qed

end
